theory Spec2Isabelle
  imports Main "HOL-Library.Word"
begin

section \<open>Strings\<close>

text \<open>
  A JavaScript string is a sequence of UTF-16 code units. \<open>js\<close> turns a literal of the
  theory, whose characters are below U+0100, into the string with these code units.
\<close>

type_synonym code_unit = "16 word"

type_synonym jsstring = "code_unit list"

definition js :: "char list \<Rightarrow> jsstring" where
  "js s = map of_char s"

text \<open>
  \<open>toLowerCase\<close> replaces every capital letter by its lowercase form. A to Z and the Latin-1
  capitals U+00C0 to U+00DE (the multiplication sign U+00D7 apart) go to the letter 32
  places higher. The capital I with a dot above, U+0130, goes to two code units, the letter
  i and the combining dot above U+0307: the lowercased string is then longer than the
  string. The table of the model ends there; the capital letters of the other blocks are
  left as they are, so a string with such a letter is outside the model. Nothing proved
  below looks into the table, except where it evaluates a given string.
\<close>

definition lower_unit :: "code_unit \<Rightarrow> jsstring" where
  "lower_unit c =
     (if (0x41 \<le> c \<and> c \<le> 0x5A) \<or> (0xC0 \<le> c \<and> c \<le> 0xDE \<and> c \<noteq> 0xD7) then [c + 0x20]
      else if c = 0x130 then [0x69, 0x307]
      else [c])"

definition toLowerCase :: "jsstring \<Rightarrow> jsstring" where
  "toLowerCase s = concat (map lower_unit s)"

text \<open>\<open>s.startsWith(k)\<close>.\<close>

fun startsWith :: "jsstring \<Rightarrow> jsstring \<Rightarrow> bool" where
  "startsWith s [] = True"
| "startsWith [] (k # ks) = False"
| "startsWith (c # s) (k # ks) = (c = k \<and> startsWith s ks)"

text \<open>\<open>s.indexOf(t)\<close>: the first position at which \<open>t\<close> occurs in \<open>s\<close>, or \<open>-1\<close>.\<close>

fun indexOf_from :: "jsstring \<Rightarrow> jsstring \<Rightarrow> nat \<Rightarrow> int" where
  "indexOf_from [] t i = (if t = [] then int i else - 1)"
| "indexOf_from (c # s) t i =
     (if startsWith (c # s) t then int i else indexOf_from s t (Suc i))"

definition indexOf :: "jsstring \<Rightarrow> jsstring \<Rightarrow> int" where
  "indexOf s t = indexOf_from s t 0"

text \<open>\<open>s.slice(a, b)\<close> and \<open>s.slice(a)\<close> for indices that are not negative.\<close>

definition slice :: "jsstring \<Rightarrow> nat \<Rightarrow> nat \<Rightarrow> jsstring" where
  "slice s a b = take (b - a) (drop a s)"

definition slice_from :: "jsstring \<Rightarrow> nat \<Rightarrow> jsstring" where
  "slice_from s a = drop a s"

text \<open>The decimal digits of a number, as template literals print it.\<close>

fun decimal :: "nat \<Rightarrow> jsstring" where
  "decimal n =
     (if n < 10 then [js ''0123456789'' ! n]
      else decimal (n div 10) @ [js ''0123456789'' ! (n mod 10)])"

declare decimal.simps [simp del]

text \<open>\<open>xs.includes(x)\<close> on an array of strings.\<close>

fun array_includes :: "'a list \<Rightarrow> 'a \<Rightarrow> bool" where
  "array_includes [] x = False"
| "array_includes (y # ys) x = (y = x \<or> array_includes ys x)"


section \<open>The response payload and the merged item list\<close>

text \<open>
  The JSON object the endpoint answers with, as the comment above \<open>replaceResults\<close>
  lists its keys.
\<close>

record response =
  items :: "jsstring list"
  exact_items :: "jsstring list"
  field :: jsstring
  raw_term :: jsstring
  term_escaped :: jsstring
  partial :: bool

text \<open>\<open>getUniqueItemList\<close> (the same text in both source files).\<close>

definition getUniqueItemList :: "response \<Rightarrow> jsstring list" where
  "getUniqueItemList json_response =
     (let exact = exact_items json_response;
          partial_items = filter (\<lambda>item. \<not> array_includes exact item) (items json_response)
      in exact @ partial_items)"


section \<open>Requests and their cancellation\<close>

text \<open>
  Both classes that talk to the network keep the \<open>AbortController\<close> of their last request
  in \<open>this.abortController\<close>. A controller is named by the number of the request it was
  made for. \<open>requested\<close> is the log of the calls of the browser's \<open>fetch\<close>, each with its
  controller and the query its URL carries, and \<open>aborted\<close> lists the controllers whose
  \<open>abort()\<close> has been called. How the URL is put together is not modelled.
\<close>

record fetcher =
  abortController :: "nat option"
  aborted :: "nat list"
  requested :: "(nat \<times> jsstring) list"
  next_request :: nat

text \<open>\<open>abortLastRequest\<close> (the same text in both classes).\<close>

definition abortLastRequest :: "'a fetcher_scheme \<Rightarrow> 'a fetcher_scheme" where
  "abortLastRequest c =
     (case abortController c of
        None \<Rightarrow> c
      | Some a \<Rightarrow> c\<lparr>aborted := aborted c @ [a], abortController := None\<rparr>)"

text \<open>\<open>this.abortController = new AbortController()\<close>, then \<open>fetch\<close> with its signal.\<close>

definition issue_request :: "jsstring \<Rightarrow> 'a fetcher_scheme \<Rightarrow> 'a fetcher_scheme" where
  "issue_request query c =
     (let r = next_request c
      in c\<lparr>abortController := Some r, next_request := Suc r,
           requested := requested c @ [(r, query)]\<rparr>)"


section \<open>The cache of the cache-backed build\<close>

text \<open>
  \<open>AutocompleteCache\<close> keeps its entries as the properties of a plain object. The model
  keeps the own properties in the order they were created, and the object's prototype:
  \<open>None\<close> for \<open>Object.prototype\<close>, which is what \<open>{}\<close> starts with, and \<open>Some p\<close> once the
  assignment \<open>this.cache["__proto__"] = p\<close> has replaced it (that assignment runs the
  inherited setter and creates no own property).

  A property read gives a payload, some other truthy value (a function, an array, a
  non-empty string, \<open>true\<close>), or a falsy one; \<open>Absent\<close> stands for \<open>undefined\<close>, \<open>null\<close> and
  every other falsy value, which the code does not tell apart.
\<close>

datatype jsvalue = Absent | Payload response | Foreign

definition truthy :: "jsvalue \<Rightarrow> bool" where
  "truthy v = (v \<noteq> Absent)"

record autocomplete_cache = fetcher +
  queryParam :: jsstring
  cache :: "(jsstring \<times> response) list"
  cache_proto :: "response option"

text \<open>
  What a read of an inherited property gives. Of the names on \<open>Object.prototype\<close> only
  \<open>constructor\<close> and \<open>__proto__\<close> are spelled without a capital, and only such a name can be
  a lowercased query. A payload that has become the prototype passes on its six keys.
\<close>

definition inherited :: "response option \<Rightarrow> jsstring \<Rightarrow> jsvalue" where
  "inherited proto k =
     (case proto of
        None \<Rightarrow> if k = js ''constructor'' \<or> k = js ''__proto__'' then Foreign else Absent
      | Some p \<Rightarrow>
          if k = js ''__proto__'' then Payload p
          else if k = js ''constructor'' \<or> k = js ''items'' \<or> k = js ''exact_items'' then Foreign
          else if k = js ''field'' then (if field p = [] then Absent else Foreign)
          else if k = js ''raw_term'' then (if raw_term p = [] then Absent else Foreign)
          else if k = js ''term'' then (if term_escaped p = [] then Absent else Foreign)
          else if k = js ''partial'' then (if partial p then Foreign else Absent)
          else Absent)"

text \<open>\<open>this.cache[k]\<close>.\<close>

definition cache_get :: "autocomplete_cache \<Rightarrow> jsstring \<Rightarrow> jsvalue" where
  "cache_get c k =
     (case map_of (cache c) k of
        Some p \<Rightarrow> Payload p
      | None \<Rightarrow> inherited (cache_proto c) k)"

text \<open>
  \<open>Object.keys(this.cache)\<close>: the own keys that are array indices (canonical decimal
  numerals below \<open>2^32 - 1\<close>) in ascending numeric order, then the other keys in the order
  of their creation.
\<close>

fun numeral_value :: "jsstring \<Rightarrow> int \<Rightarrow> int" where
  "numeral_value [] acc = acc"
| "numeral_value (c # cs) acc = numeral_value cs (10 * acc + (uint c - 48))"

definition is_array_index :: "jsstring \<Rightarrow> bool" where
  "is_array_index k =
     (k \<noteq> [] \<and> list_all (\<lambda>c. 0x30 \<le> c \<and> c \<le> 0x39) k
      \<and> (k = js ''0'' \<or> hd k \<noteq> 0x30)
      \<and> length k \<le> 10 \<and> numeral_value k 0 < 4294967295)"

definition object_keys :: "(jsstring \<times> response) list \<Rightarrow> jsstring list" where
  "object_keys props =
     sort_key (\<lambda>k. numeral_value k 0) (filter is_array_index (map fst props))
     @ filter (\<lambda>k. \<not> is_array_index k) (map fst props)"

text \<open>The \<open>for (var k of Object.keys(this.cache))\<close> loop of \<open>findInCache\<close>.\<close>

fun scan_keys :: "autocomplete_cache \<Rightarrow> jsstring \<Rightarrow> jsstring list \<Rightarrow> jsvalue" where
  "scan_keys c query [] = Absent"
| "scan_keys c query (k # ks) =
     (case map_of (cache c) k of
        Some p \<Rightarrow> if \<not> partial p \<and> startsWith query k then Payload p else scan_keys c query ks
      | None \<Rightarrow> scan_keys c query ks)"

text \<open>The test of that loop, for one key.\<close>

definition prefix_entry :: "autocomplete_cache \<Rightarrow> jsstring \<Rightarrow> jsstring \<Rightarrow> bool" where
  "prefix_entry c query k =
     (case map_of (cache c) k of
        Some p \<Rightarrow> \<not> partial p \<and> startsWith query k
      | None \<Rightarrow> False)"

definition findInCache :: "autocomplete_cache \<Rightarrow> jsstring \<Rightarrow> jsvalue" where
  "findInCache c query0 =
     (let query = toLowerCase query0
      in if truthy (cache_get c query) then cache_get c query
         else scan_keys c query (object_keys (cache c)))"

text \<open>
  \<open>this.cache[k] = data\<close> on the own properties: an existing key keeps its place, a new
  one goes last.
\<close>

fun set_property :: "jsstring \<Rightarrow> response \<Rightarrow> (jsstring \<times> response) list \<Rightarrow> (jsstring \<times> response) list" where
  "set_property k v [] = [(k, v)]"
| "set_property k v (p # ps) = (if fst p = k then (k, v) # ps else p # set_property k v ps)"

definition addToCache :: "jsstring \<Rightarrow> response \<Rightarrow> autocomplete_cache \<Rightarrow> autocomplete_cache" where
  "addToCache query data c =
     (let k = toLowerCase query
      in if k = js ''__proto__'' \<and> map_of (cache c) k = None
         then c\<lparr>cache_proto := Some data\<rparr>
         else c\<lparr>cache := set_property k data (cache c)\<rparr>)"

text \<open>
  What \<open>fetch(query)\<close> of the cache returns: a promise already resolved with the value found,
  or the promise of the network request that \<open>performFetch\<close> has just issued. The part of
  \<open>performFetch\<close> that runs before the network answers is \<open>performFetch_start\<close>.
\<close>

datatype fetch_promise = Resolved jsvalue | Pending nat

definition performFetch_start :: "jsstring \<Rightarrow> autocomplete_cache \<Rightarrow> autocomplete_cache \<times> fetch_promise" where
  "performFetch_start query c =
     (let c1 = abortLastRequest c;
          c2 = issue_request query c1
      in (c2, Pending (next_request c1)))"

definition cache_fetch :: "jsstring \<Rightarrow> autocomplete_cache \<Rightarrow> autocomplete_cache \<times> fetch_promise" where
  "cache_fetch query c =
     (let cached = findInCache c query
      in if truthy cached then (c, Resolved cached)
         else performFetch_start query c)"

text \<open>A new cache object, as the constructor leaves it.\<close>

definition new_cache :: "jsstring \<Rightarrow> autocomplete_cache" where
  "new_cache param =
     \<lparr>abortController = None, aborted = [], requested = [], next_request = 0,
      queryParam = param, cache = [], cache_proto = None\<rparr>"



section \<open>The results list\<close>

text \<open>
  The results container holds a flat list of \<open>li\<close> elements; an element's children are
  text nodes and \<open>em\<close> elements around one text node. \<open>eid\<close> is the identity of the
  JavaScript object, which no attribute write changes. Scroll position and layout are not
  part of the model.
\<close>

datatype node = Text jsstring | Em jsstring

record element =
  eid :: nat
  el_id :: "jsstring option"
  classes :: "jsstring list"
  role :: "jsstring option"
  aria_disabled :: "jsstring option"
  aria_selected :: "jsstring option"
  data_value :: "jsstring option"
  content :: "node list"

datatype toggle_action = Open | Close

datatype event = Loadstart | Load | ErrorEvent | Loadend | Toggle toggle_action

text \<open>
  The state of one controller of \<open>src/src/autocomplete.js\<close> and of the page around it:
  \<open>children\<close>, \<open>hidden\<close>, \<open>results_id\<close> and \<open>height\<close> belong to \<open>resultsTarget\<close>,
  \<open>activedescendant\<close> to \<open>inputTarget\<close>, \<open>expanded\<close> to \<open>this.element\<close>; \<open>events\<close> are the
  custom events dispatched on \<open>this.element\<close>, oldest first. \<open>li_height\<close> is what
  \<open>offsetHeight\<close> measures on a list item, \<open>next_eid\<close> the identity the next created element
  gets, \<open>selectedClasses\<close> and \<open>urlValue\<close> the configuration (\<open>None\<close> when not given).
\<close>

record widget = fetcher +
  children :: "element list"
  hidden :: bool
  results_id :: jsstring
  height :: "nat option"
  li_height :: nat
  item_count :: nat
  uniqOptionId :: nat
  next_eid :: nat
  events :: "event list"
  activedescendant :: "jsstring option"
  expanded :: "jsstring option"
  selectedClasses :: "jsstring list option"
  urlValue :: "jsstring option"

text \<open>The selectors \<open>optionSelector\<close> and \<open>activeSelector\<close>.\<close>

definition optionSelector :: "element \<Rightarrow> bool" where
  "optionSelector e = (role e = Some (js ''option'') \<and> aria_disabled e = None)"

definition activeSelector :: "element \<Rightarrow> bool" where
  "activeSelector e = (aria_selected e = Some (js ''true''))"

definition options :: "widget \<Rightarrow> element list" where
  "options st = filter optionSelector (children st)"

definition selectedOption :: "widget \<Rightarrow> element option" where
  "selectedOption st = find activeSelector (children st)"

definition selectedClassesOrDefault :: "widget \<Rightarrow> jsstring list" where
  "selectedClassesOrDefault st =
     (case selectedClasses st of Some cs \<Rightarrow> cs | None \<Rightarrow> [js ''active''])"

definition resultsShown :: "widget \<Rightarrow> bool" where
  "resultsShown st = (\<not> hidden st)"

definition dispatchEvent :: "event \<Rightarrow> widget \<Rightarrow> widget" where
  "dispatchEvent ev st = st\<lparr>events := events st @ [ev]\<rparr>"

text \<open>\<open>classList.add(...cs)\<close> and \<open>classList.remove(...cs)\<close>.\<close>

definition classList_add :: "jsstring list \<Rightarrow> jsstring list \<Rightarrow> jsstring list" where
  "classList_add have cs = foldl (\<lambda>acc c. if c \<in> set acc then acc else acc @ [c]) have cs"

definition classList_remove :: "jsstring list \<Rightarrow> jsstring list \<Rightarrow> jsstring list" where
  "classList_remove have cs = filter (\<lambda>c. c \<notin> set cs) have"

text \<open>A write to the element object \<open>i\<close>, wherever it stands in the list.\<close>

definition update_element :: "nat \<Rightarrow> (element \<Rightarrow> element) \<Rightarrow> widget \<Rightarrow> widget" where
  "update_element i f st = st\<lparr>children := map (\<lambda>e. if eid e = i then f e else e) (children st)\<rparr>"

text \<open>\<open>xs[i]\<close>: \<open>undefined\<close> outside the array.\<close>

definition at :: "'a list \<Rightarrow> int \<Rightarrow> 'a option" where
  "at xs i = (if 0 \<le> i \<and> i < int (length xs) then Some (xs ! nat i) else None)"

text \<open>\<open>options.indexOf(selected)\<close>: elements are compared by identity.\<close>

fun index_of_eid :: "element list \<Rightarrow> nat \<Rightarrow> nat \<Rightarrow> int" where
  "index_of_eid [] i n = - 1"
| "index_of_eid (e # es) i n = (if eid e = i then int n else index_of_eid es i (Suc n))"

definition elements_indexOf :: "element list \<Rightarrow> element option \<Rightarrow> int" where
  "elements_indexOf xs selected =
     (case selected of None \<Rightarrow> - 1 | Some s \<Rightarrow> index_of_eid xs (eid s) 0)"

definition sibling :: "bool \<Rightarrow> widget \<Rightarrow> element option" where
  "sibling next st =
     (let opts = options st;
          selected = selectedOption st;
          index = elements_indexOf opts selected;
          sib = (if next then at opts (index + 1) else at opts (index - 1));
          def = (if next then at opts 0 else at opts (int (length opts) - 1))
      in case sib of Some s \<Rightarrow> Some s | None \<Rightarrow> def)"

text \<open>
  \<open>select(target)\<close>. The second test reads the class list of the target as it is after the
  previous selection has been cleared.
\<close>

definition select :: "element \<Rightarrow> widget \<Rightarrow> widget" where
  "select target st =
     (let st1 = (case selectedOption st of
                   None \<Rightarrow> st
                 | Some previouslySelected \<Rightarrow>
                     update_element (eid previouslySelected)
                       (\<lambda>e. e\<lparr>aria_selected := None,
                              classes := classList_remove (classes e) (selectedClassesOrDefault st)\<rparr>)
                       st);
          live = (case find (\<lambda>e. eid e = eid target) (children st1) of
                    Some e \<Rightarrow> e | None \<Rightarrow> target)
      in if item_count st1 > 0 \<and> js ''disabled'' \<notin> set (classes live)
         then (update_element (eid target)
                 (\<lambda>e. e\<lparr>aria_selected := Some (js ''true''),
                        classes := classList_add (classes e) (selectedClassesOrDefault st1)\<rparr>)
                 st1)
              \<lparr>activedescendant := Some (case el_id live of Some i \<Rightarrow> i | None \<Rightarrow> [])\<rparr>
         else st1)"

definition onArrowDownKeydown :: "widget \<Rightarrow> widget" where
  "onArrowDownKeydown st = (case sibling True st of Some item \<Rightarrow> select item st | None \<Rightarrow> st)"

definition onArrowUpKeydown :: "widget \<Rightarrow> widget" where
  "onArrowUpKeydown st = (case sibling False st of Some item \<Rightarrow> select item st | None \<Rightarrow> st)"

text \<open>\<open>open\<close> and \<open>close\<close>, with the setter of \<open>resultsShown\<close> written out.\<close>

definition "open" :: "widget \<Rightarrow> widget" where
  "open st =
     (if resultsShown st then st
      else dispatchEvent (Toggle Open) (st\<lparr>hidden := False, expanded := Some (js ''true'')\<rparr>))"

definition close :: "widget \<Rightarrow> widget" where
  "close st =
     (if \<not> resultsShown st then st
      else dispatchEvent (Toggle Close)
             (st\<lparr>hidden := True, activedescendant := None, expanded := Some (js ''false'')\<rparr>))"

text \<open>\<open>hideAndRemoveOptions\<close> and the Escape key.\<close>

definition hideAndRemoveOptions :: "widget \<Rightarrow> widget" where
  "hideAndRemoveOptions st = (close st)\<lparr>children := []\<rparr>"

definition onEscapeKeydown :: "widget \<Rightarrow> widget" where
  "onEscapeKeydown st = (if \<not> resultsShown st then st else hideAndRemoveOptions st)"

text \<open>
  \<open>identifyOptions\<close>: every option without an \<open>id\<close> attribute gets the next number of the
  counter, in document order.
\<close>

fun identify :: "jsstring \<Rightarrow> element list \<Rightarrow> nat \<Rightarrow> element list \<times> nat" where
  "identify prefix [] n = ([], n)"
| "identify prefix (e # es) n =
     (if optionSelector e \<and> el_id e = None
      then (case identify prefix es (Suc n) of
              (es', n') \<Rightarrow> (e\<lparr>el_id := Some (prefix @ js ''-option-'' @ decimal n)\<rparr> # es', n'))
      else (case identify prefix es n of (es', n') \<Rightarrow> (e # es', n')))"

definition identifyOptions :: "widget \<Rightarrow> widget" where
  "identifyOptions st =
     (let prefix = (if results_id st = [] then (js ''stimulus-autocomplete'') else results_id st)
      in case identify prefix (children st) (uniqOptionId st) of
           (es, n) \<Rightarrow> st\<lparr>children := es, uniqOptionId := n\<rparr>)"

definition setHeight :: "widget \<Rightarrow> widget" where
  "setHeight st =
     (case children st of
        [] \<Rightarrow> st
      | li # _ \<Rightarrow>
          if item_count st \<le> 5 then st\<lparr>height := None\<rparr>
          else st\<lparr>height := Some (li_height st * 5)\<rparr>)"


section \<open>Rendering a response\<close>

text \<open>The placeholder of \<open>showSorryMessage\<close>, and the selector \<open>hideSorryMessage\<close> looks for.\<close>

definition sorry_text :: "jsstring \<Rightarrow> jsstring" where
  "sorry_text query = js ''No results found for '' @ [0x22] @ query @ [0x22]"

definition sorry_selector :: "element \<Rightarrow> bool" where
  "sorry_selector e = (js ''disabled'' \<in> set (classes e) \<and> js ''sorry-message'' \<in> set (classes e))"

definition removeChild :: "nat \<Rightarrow> widget \<Rightarrow> widget" where
  "removeChild i st = st\<lparr>children := filter (\<lambda>e. eid e \<noteq> i) (children st)\<rparr>"

definition sorry_li :: "nat \<Rightarrow> jsstring \<Rightarrow> element" where
  "sorry_li i query =
     \<lparr>eid = i, el_id = None,
      classes = [js ''list-group-item'', js ''disabled'', js ''sorry-message''],
      role = None, aria_disabled = Some (js ''true''), aria_selected = None,
      data_value = None, content = [Text (sorry_text query)]\<rparr>"

definition showSorryMessage :: "jsstring \<Rightarrow> widget \<Rightarrow> widget" where
  "showSorryMessage query st =
     (let li = sorry_li (next_eid st) query
      in setHeight (st\<lparr>next_eid := Suc (next_eid st), children := children st @ [li]\<rparr>))"

definition hideSorryMessage :: "widget \<Rightarrow> widget" where
  "hideSorryMessage st =
     (case find sorry_selector (children st) of
        None \<Rightarrow> st
      | Some li \<Rightarrow> removeChild (eid li) st)"

text \<open>
  The cache-backed build differs here: its \<open>showSorryMessage\<close> calls \<open>hideSorryMessage\<close>
  first, and its \<open>hideSorryMessage\<close> looks for \<open>li.sorry-message\<close>.
\<close>

definition cached_hideSorryMessage :: "widget \<Rightarrow> widget" where
  "cached_hideSorryMessage st =
     (case find (\<lambda>e. js ''sorry-message'' \<in> set (classes e)) (children st) of
        None \<Rightarrow> st
      | Some li \<Rightarrow> removeChild (eid li) st)"

definition cached_showSorryMessage :: "jsstring \<Rightarrow> widget \<Rightarrow> widget" where
  "cached_showSorryMessage query st = showSorryMessage query (cached_hideSorryMessage st)"

text \<open>The three nodes \<open>updateResults\<close> builds for an item that matches at \<open>pos\<close>.\<close>

definition highlight :: "jsstring \<Rightarrow> jsstring \<Rightarrow> nat \<Rightarrow> node list" where
  "highlight item query pos =
     [Text (slice item 0 pos),
      Em (slice item pos (pos + length query)),
      Text (slice_from item (pos + length query))]"

text \<open>\<open>insertBefore(li, last_li.nextSibling)\<close> and \<open>insertBefore(li, firstChild)\<close>.\<close>

fun insert_after :: "nat \<Rightarrow> element \<Rightarrow> element list \<Rightarrow> element list" where
  "insert_after l li [] = [li]"
| "insert_after l li (e # es) = (if eid e = l then e # li # es else e # insert_after l li es)"

text \<open>
  The \<open>li\<close> the loop creates for an item, and the place it is inserted at: after
  \<open>last_li\<close> when there is one, else before the first child.
\<close>

definition new_option :: "nat \<Rightarrow> jsstring \<Rightarrow> node list \<Rightarrow> element" where
  "new_option i item nodes =
     \<lparr>eid = i, el_id = None, classes = [js ''list-group-item''], role = Some (js ''option''),
      aria_disabled = None, aria_selected = None, data_value = Some item, content = nodes\<rparr>"

definition insert_li :: "nat option \<Rightarrow> element \<Rightarrow> element list \<Rightarrow> element list" where
  "insert_li last_li li cs =
     (case last_li of Some l \<Rightarrow> insert_after l li cs | None \<Rightarrow> li # cs)"

text \<open>
  One round of the loop over the items. The loop's variables are the widget, \<open>last_li\<close> and
  \<open>shown_items\<close>; \<open>existing_lis\<close> is the array read before the loop.
\<close>

definition render_item ::
  "element list \<Rightarrow> jsstring \<Rightarrow> widget \<times> nat option \<times> jsstring list \<Rightarrow> jsstring
     \<Rightarrow> widget \<times> nat option \<times> jsstring list" where
  "render_item existing_lis query acc item =
     (case acc of (st, last_li, shown_items) \<Rightarrow>
        let pos = indexOf (toLowerCase item) (toLowerCase query)
        in if pos \<ge> 0
           then
             (let nodes = highlight item query (nat pos)
              in case find (\<lambda>li. data_value li = Some item) existing_lis of
                   Some existing_li \<Rightarrow>
                     (let st1 = update_element (eid existing_li) (\<lambda>e. e\<lparr>content := nodes\<rparr>) st
                      in (st1\<lparr>item_count := item_count st1 + 1\<rparr>,
                          Some (eid existing_li), shown_items @ [item]))
                 | None \<Rightarrow>
                     (let li = new_option (next_eid st) item nodes;
                          st1 = st\<lparr>next_eid := Suc (next_eid st)\<rparr>;
                          st2 = st1\<lparr>children := insert_li last_li li (children st1)\<rparr>
                      in (st2\<lparr>item_count := item_count st2 + 1\<rparr>,
                          Some (eid li), shown_items @ [item])))
           else acc)"

text \<open>One round of the loop that removes the elements no longer needed.\<close>

definition remove_unshown :: "jsstring list \<Rightarrow> widget \<Rightarrow> element \<Rightarrow> widget" where
  "remove_unshown shown_items st li =
     (if \<not> (case data_value li of None \<Rightarrow> False | Some v \<Rightarrow> array_includes shown_items v)
      then removeChild (eid li) st else st)"

definition updateResults :: "jsstring list \<Rightarrow> jsstring \<Rightarrow> widget \<Rightarrow> widget" where
  "updateResults its query st =
     (let st0 = st\<lparr>item_count := 0\<rparr>;
          existing_lis = options st0
      in case foldl (render_item existing_lis query) (st0, None, []) its of
           (st1, last_li, shown_items) \<Rightarrow>
             (let st2 = foldl (remove_unshown shown_items) st1 existing_lis
              in if item_count st2 = 0 then showSorryMessage query st2
                 else hideSorryMessage st2))"

text \<open>
  \<open>!!this.options\<close>: the getter returns an array, and every object converts to \<open>true\<close>, an
  empty array as well.
\<close>

definition to_boolean :: "element list \<Rightarrow> bool" where
  "to_boolean array = True"

definition replaceResults :: "response \<Rightarrow> jsstring \<Rightarrow> widget \<Rightarrow> widget" where
  "replaceResults json_response query st =
     (let all_items = getUniqueItemList json_response;
          st1 = updateResults all_items query st;
          st2 = identifyOptions st1
      in if to_boolean (options st2) then setHeight (open st2) else close st2)"

text \<open>A controller that has just connected to an empty, hidden results list.\<close>

definition connected :: widget where
  "connected =
     \<lparr>abortController = None, aborted = [], requested = [], next_request = 0,
      children = [], hidden = True, results_id = js ''results'', height = None, li_height = 20,
      item_count = 0, uniqOptionId = 0, next_eid = 0, events = [],
      activedescendant = None, expanded = None, selectedClasses = None,
      urlValue = Some (js ''/search'')\<rparr>"


section \<open>The fetch cycle\<close>

text \<open>
  \<open>fetchResults\<close> is an \<open>async\<close> function: a call runs up to \<open>await fetch(...)\<close> inside
  \<open>doFetch\<close>, is resumed when the response (status line and headers) has arrived, runs up to
  \<open>await response.json()\<close>, and is resumed again when the body has been read and parsed.
  Between these points other code of the page runs, a later call of \<open>fetchResults\<close> among
  it. The model keeps the calls that are suspended, each with its request, its query and
  the \<open>await\<close> it waits at, and takes one step for each thing that can happen: the user's
  input calls \<open>fetchResults\<close>, a response arrives, a body arrives, or a promise a call waits
  for is rejected.

  The values a call can throw: the \<open>Error\<close> of \<open>doFetch\<close> with its message, and the errors
  of the browser (a \<open>TypeError\<close> for a failed transport, an \<open>AbortError\<close> for an aborted
  request, a \<open>SyntaxError\<close> for a body that is not JSON).
\<close>

datatype js_error = Error jsstring | TypeError | AbortError | SyntaxError

datatype await_point = AwaitFetch | AwaitJson

record pending_call =
  call_request :: nat
  call_query :: jsstring
  call_at :: await_point

text \<open>
  The page: the controller, its suspended calls of \<open>fetchResults\<close>, the errors its calls
  have thrown to their caller, and the log of the responses that were handed to
  \<open>replaceResults\<close>, each with the request it answers and the query it was rendered for.
\<close>

record page =
  controller :: widget
  calls :: "pending_call list"
  thrown :: "(nat \<times> js_error) list"
  applied :: "(nat \<times> jsstring) list"

text \<open>\<open>response.ok\<close>: the status is in the range 200 to 299.\<close>

definition response_ok :: "nat \<Rightarrow> bool" where
  "response_ok status = (200 \<le> status \<and> status \<le> 299)"

text \<open>\<open>doFetch\<close> up to \<open>await fetch(...)\<close>.\<close>

definition doFetch_start :: "jsstring \<Rightarrow> widget \<Rightarrow> widget" where
  "doFetch_start query st = issue_request query (abortLastRequest st)"

text \<open>\<open>fetchResults\<close> up to the first \<open>await\<close>.\<close>

definition fetchResults_start :: "jsstring \<Rightarrow> page \<Rightarrow> page" where
  "fetchResults_start query p =
     (if urlValue (controller p) = None then p
      else (let st1 = dispatchEvent Loadstart (controller p);
                st2 = doFetch_start query st1
            in p\<lparr>controller := st2,
                 calls := calls p @ [\<lparr>call_request = next_request st1, call_query = query,
                                       call_at = AwaitFetch\<rparr>]\<rparr>))"

text \<open>The \<open>catch\<close> block of \<open>fetchResults\<close>, which ends the call.\<close>

definition fetchResults_catch :: "pending_call \<Rightarrow> js_error \<Rightarrow> page \<Rightarrow> page" where
  "fetchResults_catch c error p =
     p\<lparr>controller := dispatchEvent Loadend (dispatchEvent ErrorEvent (controller p)),
       calls := filter (\<lambda>d. call_request d \<noteq> call_request c) (calls p),
       thrown := thrown p @ [(call_request c, error)]\<rparr>"

text \<open>\<open>doFetch\<close> from the arrival of the response up to \<open>await response.json()\<close>.\<close>

definition doFetch_response :: "pending_call \<Rightarrow> nat \<Rightarrow> page \<Rightarrow> page" where
  "doFetch_response c status p =
     (let p1 = p\<lparr>controller := (controller p)\<lparr>abortController := None\<rparr>\<rparr>
      in if \<not> response_ok status
         then fetchResults_catch c (Error (js ''Server responded with status '' @ decimal status)) p1
         else p1\<lparr>calls := map (\<lambda>d. if call_request d = call_request c
                                     then d\<lparr>call_at := AwaitJson\<rparr> else d) (calls p1)\<rparr>)"

text \<open>\<open>fetchResults\<close> from the value of \<open>doFetch\<close> to the end of the \<open>try\<close> block.\<close>

definition fetchResults_resume :: "pending_call \<Rightarrow> response \<Rightarrow> page \<Rightarrow> page" where
  "fetchResults_resume c json_response p =
     p\<lparr>controller := dispatchEvent Loadend (dispatchEvent Load
                         (replaceResults json_response (call_query c) (controller p))),
       calls := filter (\<lambda>d. call_request d \<noteq> call_request c) (calls p),
       applied := applied p @ [(call_request c, call_query c)]\<rparr>"

text \<open>
  What can happen, and the step each thing takes. A response or a body arrives only for a
  call that waits for it and whose request has not been aborted: the promise of an aborted
  request is rejected. A step that cannot happen gives \<open>None\<close>.
\<close>

datatype happening =
    Typed jsstring
  | Headers nat nat
  | Body nat response
  | Rejected nat js_error

definition find_call :: "nat \<Rightarrow> page \<Rightarrow> pending_call option" where
  "find_call r p = find (\<lambda>c. call_request c = r) (calls p)"

definition is_aborted :: "nat \<Rightarrow> page \<Rightarrow> bool" where
  "is_aborted r p = (r \<in> set (aborted (controller p)))"

fun step :: "happening \<Rightarrow> page \<Rightarrow> page option" where
  "step (Typed query) p = Some (fetchResults_start query p)"
| "step (Headers r status) p =
     (case find_call r p of
        None \<Rightarrow> None
      | Some c \<Rightarrow> if call_at c = AwaitFetch \<and> \<not> is_aborted r p
                  then Some (doFetch_response c status p) else None)"
| "step (Body r json_response) p =
     (case find_call r p of
        None \<Rightarrow> None
      | Some c \<Rightarrow> if call_at c = AwaitJson \<and> \<not> is_aborted r p
                  then Some (fetchResults_resume c json_response p) else None)"
| "step (Rejected r error) p =
     (case find_call r p of
        None \<Rightarrow> None
      | Some c \<Rightarrow> Some (fetchResults_catch c error p))"

fun steps :: "happening list \<Rightarrow> page \<Rightarrow> page option" where
  "steps [] p = Some p"
| "steps (h # hs) p = (case step h p of None \<Rightarrow> None | Some p' \<Rightarrow> steps hs p')"

text \<open>The requests that have been sent, not aborted, and whose call has not ended.\<close>

definition outstanding :: "page \<Rightarrow> nat list" where
  "outstanding p = filter (\<lambda>r. \<not> is_aborted r p) (map call_request (calls p))"

text \<open>The page of a controller that has just connected.\<close>

definition loaded :: page where
  "loaded = \<lparr>controller = connected, calls = [], thrown = [], applied = []\<rparr>"


section \<open>The fetch cycle of the cache-backed build\<close>

text \<open>
  \<open>updateResults\<close> and \<open>replaceResults\<close> have the same text in the cache-backed build, where
  they call that build's \<open>showSorryMessage\<close> and \<open>hideSorryMessage\<close>.
\<close>

definition cached_updateResults :: "jsstring list \<Rightarrow> jsstring \<Rightarrow> widget \<Rightarrow> widget" where
  "cached_updateResults its query st =
     (let st0 = st\<lparr>item_count := 0\<rparr>;
          existing_lis = options st0
      in case foldl (render_item existing_lis query) (st0, None, []) its of
           (st1, last_li, shown_items) \<Rightarrow>
             (let st2 = foldl (remove_unshown shown_items) st1 existing_lis
              in if item_count st2 = 0 then cached_showSorryMessage query st2
                 else cached_hideSorryMessage st2))"

definition cached_replaceResults :: "response \<Rightarrow> jsstring \<Rightarrow> widget \<Rightarrow> widget" where
  "cached_replaceResults json_response query st =
     (let all_items = getUniqueItemList json_response;
          st1 = cached_updateResults all_items query st;
          st2 = identifyOptions st1
      in if to_boolean (options st2) then setHeight (open st2) else close st2)"

text \<open>
  The page of the cache-backed build: the controller, its \<open>autocomplete_cache\<close>, the calls
  of \<open>fetchResults\<close> that wait for the promise of \<open>performFetch\<close> (each with its request
  and its query), the errors thrown, and the log of what was handed to \<open>replaceResults\<close>:
  the request it came from, or \<open>None\<close> when it came out of the cache, and the query it was
  rendered for.
\<close>

record cached_page =
  element_state :: widget
  the_cache :: autocomplete_cache
  awaited :: "(nat \<times> jsstring) list"
  cached_thrown :: "(nat option \<times> js_error) list"
  cached_applied :: "(nat option \<times> jsstring) list"

text \<open>
  The last handler of the chain in \<open>performFetch\<close>, which runs when the body has been
  parsed.
\<close>

definition performFetch_data :: "jsstring \<Rightarrow> response \<Rightarrow> autocomplete_cache \<Rightarrow> autocomplete_cache" where
  "performFetch_data query data c = addToCache query data (c\<lparr>abortController := None\<rparr>)"

text \<open>
  \<open>fetchResults\<close> of the cache-backed build. A promise that is already resolved lets the
  call go on before anything else happens on the page; a value that is not a payload has
  no \<open>exact_items\<close> and no \<open>items\<close>, and \<open>getUniqueItemList\<close> throws a \<open>TypeError\<close> on it.
\<close>

definition cached_fetchResults :: "jsstring \<Rightarrow> cached_page \<Rightarrow> cached_page" where
  "cached_fetchResults query p =
     (if urlValue (element_state p) = None then p
      else (let st1 = dispatchEvent Loadstart (element_state p)
            in case cache_fetch query (the_cache p) of
                 (c, Pending r) \<Rightarrow>
                   p\<lparr>element_state := st1, the_cache := c, awaited := awaited p @ [(r, query)]\<rparr>
               | (c, Resolved (Payload json_response)) \<Rightarrow>
                   p\<lparr>element_state := dispatchEvent Loadend (dispatchEvent Load
                                           (cached_replaceResults json_response query st1)),
                     the_cache := c,
                     cached_applied := cached_applied p @ [(None, query)]\<rparr>
               | (c, Resolved other) \<Rightarrow>
                   p\<lparr>element_state := dispatchEvent Loadend (dispatchEvent ErrorEvent st1),
                     the_cache := c,
                     cached_thrown := cached_thrown p @ [(None, TypeError)]\<rparr>))"

text \<open>
  What can happen there: the user's input calls \<open>fetchResults\<close>, the parsed body of a
  request that has not been aborted arrives, or the promise of a request is rejected
  (for a status outside 200 to 299 with \<open>Error(response.statusText)\<close>).
\<close>

datatype cached_happening =
    CachedTyped jsstring
  | CachedData nat response
  | CachedRejected nat js_error

fun cached_step :: "cached_happening \<Rightarrow> cached_page \<Rightarrow> cached_page option" where
  "cached_step (CachedTyped query) p = Some (cached_fetchResults query p)"
| "cached_step (CachedData r data) p =
     (case map_of (awaited p) r of
        None \<Rightarrow> None
      | Some query \<Rightarrow>
          if r \<in> set (aborted (the_cache p)) then None
          else Some (p\<lparr>the_cache := performFetch_data query data (the_cache p),
                       element_state := dispatchEvent Loadend (dispatchEvent Load
                                          (cached_replaceResults data query (element_state p))),
                       awaited := filter (\<lambda>c. fst c \<noteq> r) (awaited p),
                       cached_applied := cached_applied p @ [(Some r, query)]\<rparr>))"
| "cached_step (CachedRejected r error) p =
     (case map_of (awaited p) r of
        None \<Rightarrow> None
      | Some query \<Rightarrow>
          Some (p\<lparr>element_state := dispatchEvent Loadend (dispatchEvent ErrorEvent (element_state p)),
                  awaited := filter (\<lambda>c. fst c \<noteq> r) (awaited p),
                  cached_thrown := cached_thrown p @ [(Some r, error)]\<rparr>))"

fun cached_steps :: "cached_happening list \<Rightarrow> cached_page \<Rightarrow> cached_page option" where
  "cached_steps [] p = Some p"
| "cached_steps (h # hs) p =
     (case cached_step h p of None \<Rightarrow> None | Some p' \<Rightarrow> cached_steps hs p')"

definition cached_loaded :: cached_page where
  "cached_loaded =
     \<lparr>element_state = connected, the_cache = new_cache (js ''q''), awaited = [],
      cached_thrown = [], cached_applied = []\<rparr>"


section \<open>The vocabulary of the properties\<close>

text \<open>
  An element without its children: what stays of it when \<open>updateResults\<close> reuses it.
\<close>

definition erase :: "element \<Rightarrow> element" where
  "erase e = e\<lparr>content := []\<rparr>"

text \<open>The test \<open>pos >= 0\<close> of the loop, and the nodes it builds for an item that passes.\<close>

definition matches :: "jsstring \<Rightarrow> jsstring \<Rightarrow> bool" where
  "matches query item = (0 \<le> indexOf (toLowerCase item) (toLowerCase query))"

definition item_nodes :: "jsstring \<Rightarrow> jsstring \<Rightarrow> node list" where
  "item_nodes query item =
     highlight item query (nat (indexOf (toLowerCase item) (toLowerCase query)))"

text \<open>\<open>t\<close> occurs in \<open>s\<close> at position \<open>i\<close>; \<open>t\<close> is a substring of \<open>s\<close>.\<close>

definition occurs_at :: "jsstring \<Rightarrow> jsstring \<Rightarrow> nat \<Rightarrow> bool" where
  "occurs_at s t i = (i + length t \<le> length s \<and> take (length t) (drop i s) = t)"

definition substring :: "jsstring \<Rightarrow> jsstring \<Rightarrow> bool" where
  "substring s t = list_ex (occurs_at s t) [0 ..< Suc (length s)]"

text \<open>The element of the list that carries an item, as \<open>find\<close> picks it.\<close>

definition option_for :: "widget \<Rightarrow> jsstring \<Rightarrow> element option" where
  "option_for st item = find (\<lambda>li. data_value li = Some item) (options st)"

text \<open>
  What the operations keep true of the state: element identities are distinct and below
  the next one to be given out; an option carries neither of the placeholder's classes
  \<open>disabled\<close> and \<open>sorry-message\<close>, and the configured selection classes are not these
  either; only options are marked selected; and \<open>item_count\<close> is positive while there are
  options.
\<close>

definition plain_classes :: "jsstring list \<Rightarrow> bool" where
  "plain_classes cs = (js ''disabled'' \<notin> set cs \<and> js ''sorry-message'' \<notin> set cs)"

definition well_formed :: "widget \<Rightarrow> bool" where
  "well_formed st =
     (distinct (map eid (children st))
      \<and> list_all (\<lambda>e. eid e < next_eid st) (children st)
      \<and> list_all (\<lambda>e. optionSelector e \<longrightarrow> plain_classes (classes e)) (children st)
      \<and> list_all (\<lambda>e. activeSelector e \<longrightarrow> optionSelector e) (children st)
      \<and> (options st \<noteq> [] \<longrightarrow> 0 < item_count st)
      \<and> plain_classes (selectedClassesOrDefault st))"

text \<open>The placeholders in the list, and the number of elements marked selected.\<close>

definition sorry_messages :: "widget \<Rightarrow> element list" where
  "sorry_messages st = filter sorry_selector (children st)"

definition selected_count :: "widget \<Rightarrow> nat" where
  "selected_count st = length (filter activeSelector (children st))"

text \<open>The user's keys and the arrival of a response, as one datatype, and a run of them.\<close>

datatype operation = ArrowDown | ArrowUp | Escape | Render response jsstring

fun perform :: "widget \<Rightarrow> operation \<Rightarrow> widget" where
  "perform st ArrowDown = onArrowDownKeydown st"
| "perform st ArrowUp = onArrowUpKeydown st"
| "perform st Escape = onEscapeKeydown st"
| "perform st (Render json_response query) = replaceResults json_response query st"

definition run :: "operation list \<Rightarrow> widget \<Rightarrow> widget" where
  "run ops st = foldl perform st ops"

text \<open>The state without the three fields the loop of \<open>updateResults\<close> writes.\<close>

definition frame :: "widget \<Rightarrow> widget" where
  "frame st = st\<lparr>children := [], next_eid := 0, item_count := 0\<rparr>"

text \<open>
  The invariant of the loop over the items of \<open>updateResults\<close>, started in state \<open>s\<close>:
  the elements that were there before the loop are all still there, in their order and
  with their attributes; the elements created since are options built for shown items
  that had no element; every shown item that had an element has had its children
  replaced; and no other field of the state has changed.
\<close>

definition loop_inv :: "widget \<Rightarrow> jsstring \<Rightarrow> widget \<times> nat option \<times> jsstring list \<Rightarrow> bool" where
  "loop_inv s q acc =
     (case acc of (st, last_li, sh) \<Rightarrow>
        distinct (map eid (children st))
        \<and> (\<forall>e \<in> set (children st). eid e < next_eid st)
        \<and> next_eid s \<le> next_eid st
        \<and> map erase (filter (\<lambda>e. eid e < next_eid s) (children st)) = map erase (children s)
        \<and> (\<forall>e \<in> set (children st). next_eid s \<le> eid e \<longrightarrow>
              (\<exists>v \<in> set sh. option_for s v = None \<and> e = new_option (eid e) v (item_nodes q v)))
        \<and> (\<forall>v \<in> set sh. matches q v)
        \<and> (\<forall>v \<in> set sh. \<forall>li. option_for s v = Some li \<longrightarrow>
              (\<forall>e \<in> set (children st). eid e = eid li \<longrightarrow> content e = item_nodes q v))
        \<and> (\<forall>v \<in> set sh. option_for s v = None \<longrightarrow>
              (\<exists>e \<in> set (children st). next_eid s \<le> eid e \<and> data_value e = Some v))
        \<and> frame st = frame s)"

text \<open>
  The two loops of \<open>updateResults\<close> without the placeholder step that follows them, and
  the test of the second loop: an element is stale when its item is not among the shown.
\<close>

definition stale :: "jsstring list \<Rightarrow> element \<Rightarrow> bool" where
  "stale sh li = (\<not> (case data_value li of None \<Rightarrow> False | Some v \<Rightarrow> array_includes sh v))"

definition render_pass :: "jsstring list \<Rightarrow> jsstring \<Rightarrow> widget \<Rightarrow> widget" where
  "render_pass its q st =
     (let s = st\<lparr>item_count := 0\<rparr>
      in case foldl (render_item (options s) q) (s, None, []) its of
           (st1, l, sh) \<Rightarrow> foldl (remove_unshown sh) st1 (options s))"

text \<open>An element without its \<open>id\<close> attribute: what \<open>identifyOptions\<close> leaves untouched.\<close>

definition without_id :: "element \<Rightarrow> element" where
  "without_id e = e\<lparr>el_id := None\<rparr>"

text \<open>
  The two attribute writes of \<open>select\<close>: clearing the previous selection, and marking
  the target, each with the selection classes \<open>cs\<close>.
\<close>

definition deselected :: "jsstring list \<Rightarrow> element \<Rightarrow> element" where
  "deselected cs e = e\<lparr>aria_selected := None, classes := classList_remove (classes e) cs\<rparr>"

definition marked :: "jsstring list \<Rightarrow> element \<Rightarrow> element" where
  "marked cs e = e\<lparr>aria_selected := Some (js ''true''), classes := classList_add (classes e) cs\<rparr>"

text \<open>The identities of the elements marked selected, in document order.\<close>

definition selected_ids :: "widget \<Rightarrow> nat list" where
  "selected_ids st = map eid (filter activeSelector (children st))"

text \<open>The first step of \<open>select\<close>: the previous selection cleared.\<close>

definition clear_previous :: "widget \<Rightarrow> widget" where
  "clear_previous st =
     (case selectedOption st of
        None \<Rightarrow> st
      | Some p \<Rightarrow> update_element (eid p) (deselected (selectedClassesOrDefault st)) st)"

text \<open>
  What holds of the page of the direct build whatever has happened: the requests of the
  calls and of the log are requests that were sent, no request of the log has been
  aborted, and the request whose controller is kept in \<open>this.abortController\<close> is not in
  the log and no call of it has passed \<open>await fetch(...)\<close>.
\<close>

definition calls_consistent :: "page \<Rightarrow> bool" where
  "calls_consistent p =
     ((\<forall>c \<in> set (calls p). call_request c < next_request (controller p))
      \<and> (\<forall>x \<in> set (applied p). fst x < next_request (controller p) \<and> \<not> is_aborted (fst x) p)
      \<and> (\<forall>a. abortController (controller p) = Some a \<longrightarrow>
             a < next_request (controller p)
             \<and> a \<notin> fst ` set (applied p)
             \<and> (\<forall>c \<in> set (calls p). call_request c = a \<longrightarrow> call_at c = AwaitFetch)))"


section \<open>Concrete inputs\<close>

text \<open>
  Two payloads, and the cache after the queries \<open>jo\<close> and then \<open>j\<close> have been answered
  by the network: \<open>jo\<close> is cached first, and a later fetch of \<open>j\<close> finds nothing to reuse,
  goes to the network and is cached second.
\<close>

definition payload_jo :: response where
  "payload_jo =
     \<lparr>items = [js ''Jo'', js ''John'', js ''Joan''], exact_items = [js ''Jo''], field = js ''name'',
      raw_term = js ''jo'', term_escaped = js ''jo'', partial = False\<rparr>"

definition payload_j :: response where
  "payload_j =
     \<lparr>items = [js ''Jo'', js ''John'', js ''Joan'', js ''Jane''], exact_items = [], field = js ''name'',
      raw_term = js ''j'', term_escaped = js ''j'', partial = False\<rparr>"

definition cache_jo_then_j :: autocomplete_cache where
  "cache_jo_then_j = addToCache (js ''j'') payload_j (addToCache (js ''jo'') payload_jo (new_cache (js ''q'')))"

text \<open>A response without items, and one with three names.\<close>

definition no_items :: response where
  "no_items =
     \<lparr>items = [], exact_items = [], field = js ''name'', raw_term = js ''zz'',
      term_escaped = js ''zz'', partial = False\<rparr>"

definition three_names :: response where
  "three_names =
     \<lparr>items = [js ''Johnny'', js ''John'', js ''Bob'', js ''John Doe''], exact_items = [js ''John''],
      field = js ''name'', raw_term = js ''john'', term_escaped = js ''john'', partial = False\<rparr>"

text \<open>
  The list rendered from the three names for the query \<open>jo\<close>, and the same list after
  ArrowUp has selected its last option.
\<close>

definition jo_list :: widget where
  "jo_list = replaceResults three_names (js ''jo'') connected"

definition jo_list_up :: widget where
  "jo_list_up = onArrowUpKeydown jo_list"

text \<open>A run of renders and arrow keys that ends with one option selected.\<close>

definition keys_and_renders :: "operation list" where
  "keys_and_renders =
     [Render three_names (js ''jo''), ArrowDown, ArrowDown, Render three_names (js ''john''), ArrowUp,
      Render no_items (js ''zz''), Escape, Render three_names (js ''o''), ArrowUp, ArrowDown, ArrowDown]"

text \<open>
  The user types \<open>j\<close>; the response to that request arrives; the user types \<open>jo\<close> while the
  body of the first response is still being read; the second response and its body arrive;
  then the body of the first.
\<close>

definition overtaken :: "happening list" where
  "overtaken =
     [Typed (js ''j''), Headers 0 200, Typed (js ''jo''), Headers 1 200, Body 1 payload_jo, Body 0 payload_j]"




text \<open>
  In the cache-backed build: the user types \<open>jo\<close> and the answer arrives and is cached;
  the user types \<open>k\<close>; before that answer arrives the user types \<open>john\<close>, which the cache
  answers from the entry of \<open>jo\<close>; then the answer for \<open>k\<close> arrives.
\<close>

definition payload_k :: response where
  "payload_k =
     \<lparr>items = [js ''Kim'', js ''Karl''], exact_items = [], field = js ''name'',
      raw_term = js ''k'', term_escaped = js ''k'', partial = False\<rparr>"

definition answered_late :: "cached_happening list" where
  "answered_late =
     [CachedTyped (js ''jo''), CachedData 0 payload_jo, CachedTyped (js ''k''), CachedTyped (js ''john''),
      CachedData 1 payload_k]"

text \<open>
  The name \<open>Istanbul\<close> as it is written in Turkish, with the capital I with a dot above
  (U+0130) as its first code unit.
\<close>

definition istanbul :: jsstring where
  "istanbul = 0x130 # js ''stanbul''"


section \<open>Facts about strings and arrays\<close>

lemma array_includes_set: "array_includes xs x \<longleftrightarrow> x \<in> set xs"
  by (induction xs) auto

lemma startsWith_append: "startsWith s k \<longleftrightarrow> (\<exists>r. s = k @ r)"
  by (induction s k rule: startsWith.induct) auto

lemma unat_of_char: "unat (of_char c :: code_unit) = of_char c"
proof -
  have "(of_char c :: code_unit) = of_nat (of_char c)" by (simp add: of_nat_of_char)
  moreover have "(of_char c :: nat) < 2 ^ 16"
  proof -
    have "(of_char c :: nat) mod 256 < 256" by simp
    then have "(of_char c :: nat) < 256" by (simp only: of_char_mod_256)
    then have "(of_char c :: nat) < 65536" by linarith
    then show ?thesis by simp
  qed
  ultimately show ?thesis by (simp add: unat_of_nat)
qed

lemma of_char_unit_eq [simp]: "(of_char a :: code_unit) = of_char b \<longleftrightarrow> a = b"
  by (metis unat_of_char of_char_eq_iff)

lemma js_eq_iff [simp]: "js a = js b \<longleftrightarrow> a = b"
  unfolding js_def by (simp add: inj_map_eq_map inj_on_def)

lemma js_Nil [simp]: "js s = [] \<longleftrightarrow> s = []"
  by (simp add: js_def)

text \<open>For evaluation, the code units of a literal are computed as integers first.\<close>

lemma js_code [code]: "js s = map (\<lambda>c. word_of_int (of_char c)) s"
  by (simp add: js_def of_int_of_char)


section \<open>The merged item list\<close>

text \<open>
  C3. The list handed to rendering is \<open>exact_items\<close> followed by the elements of \<open>items\<close>
  that are not in \<open>exact_items\<close>, each part in its own order, and nothing in the tail
  after the exact items is an exact item.
\<close>

theorem getUniqueItemList_exact_then_partial:
  "getUniqueItemList r = exact_items r @ filter (\<lambda>item. item \<notin> set (exact_items r)) (items r)
   \<and> take (length (exact_items r)) (getUniqueItemList r) = exact_items r
   \<and> drop (length (exact_items r)) (getUniqueItemList r)
       = filter (\<lambda>item. item \<notin> set (exact_items r)) (items r)
   \<and> set (drop (length (exact_items r)) (getUniqueItemList r)) \<inter> set (exact_items r) = {}"
  by (auto simp: getUniqueItemList_def Let_def array_includes_set)


section \<open>Lookups in the cache\<close>

lemma scan_keys_first:
  "scan_keys c q ks =
     (case find (prefix_entry c q) ks of
        None \<Rightarrow> Absent
      | Some k \<Rightarrow> (case map_of (cache c) k of Some p \<Rightarrow> Payload p | None \<Rightarrow> Absent))"
  by (induction ks) (auto simp: prefix_entry_def split: option.splits)

lemma set_object_keys: "set (object_keys props) = fst ` set props"
  by (auto simp: object_keys_def)

lemma own_key_listed: "map_of (cache c) k = Some p \<Longrightarrow> k \<in> set (object_keys (cache c))"
  by (metis set_object_keys map_of_SomeD fst_conv image_eqI)

lemma find_prefix_entry_Some:
  assumes "map_of (cache c) k1 = Some p1" "\<not> partial p1" "startsWith q k1"
  shows "\<exists>k. find (prefix_entry c q) (object_keys (cache c)) = Some k"
proof -
  have "k1 \<in> set (object_keys (cache c))" using assms(1) by (rule own_key_listed)
  moreover have "prefix_entry c q k1" using assms by (simp add: prefix_entry_def)
  ultimately have "find (prefix_entry c q) (object_keys (cache c)) \<noteq> None"
    by (auto simp: find_None_iff)
  then show ?thesis by auto
qed

lemma findInCache_exact:
  "truthy (cache_get c (toLowerCase q)) \<Longrightarrow> findInCache c q = cache_get c (toLowerCase q)"
  by (simp add: findInCache_def Let_def)

lemma findInCache_scan:
  "\<not> truthy (cache_get c (toLowerCase q)) \<Longrightarrow>
     findInCache c q = scan_keys c (toLowerCase q) (object_keys (cache c))"
  by (simp add: findInCache_def Let_def)

lemma fetch_miss:
  assumes "cache_fetch q c = (c', Pending r)"
  shows "cache_get c (toLowerCase q) = Absent \<and>
         find (prefix_entry c (toLowerCase q)) (object_keys (cache c)) = None"
proof -
  have nf: "\<not> truthy (findInCache c q)"
    using assms by (auto simp: cache_fetch_def Let_def split: if_splits)
  then have a: "\<not> truthy (cache_get c (toLowerCase q))"
    by (auto simp: findInCache_def Let_def split: if_splits)
  then have "scan_keys c (toLowerCase q) (object_keys (cache c)) = Absent"
    using nf by (simp add: findInCache_scan truthy_def)
  then have "find (prefix_entry c (toLowerCase q)) (object_keys (cache c)) = None"
    by (auto simp: scan_keys_first prefix_entry_def find_Some_iff split: option.splits)
  with a show ?thesis by (simp add: truthy_def)
qed

lemma own_entry_read:
  "map_of (cache c) k = Some p \<Longrightarrow> cache_get c k = Payload p"
  by (simp add: cache_get_def)

lemma not_inherited_read:
  "inherited (cache_proto c) k = Absent \<Longrightarrow> map_of (cache c) k = None \<Longrightarrow> cache_get c k = Absent"
  by (simp add: cache_get_def)

text \<open>
  C1, as amended. Let the cache hold an own entry under the lowercased \<open>q1\<close> with
  \<open>partial = false\<close>, let the lowercased \<open>q1\<close> be a prefix of the lowercased \<open>q2\<close>, and let
  the lowercased \<open>q2\<close> not be the name of a property the cache object inherits. Then
  \<open>fetch(q2)\<close> issues no network request and leaves the cache object as it is, and it
  resolves with the payload of an entry of the cache: the entry under the lowercased \<open>q2\<close>
  when there is one, and otherwise the entry of the first key, in the order of
  \<open>Object.keys\<close>, that is not partial and is a prefix of the lowercased \<open>q2\<close>. That is the
  entry of \<open>q1\<close> when no other key qualifies. The last conjunct is the converse: a fetch
  that goes to the network found no entry under the lowercased query and no key to reuse.
\<close>

theorem fetch_reuses_cached_prefix:
  assumes "map_of (cache c) (toLowerCase q1) = Some p1"
    and "\<not> partial p1"
    and "startsWith (toLowerCase q2) (toLowerCase q1)"
    and "inherited (cache_proto c) (toLowerCase q2) = Absent"
  shows "(\<exists>k p. map_of (cache c) k = Some p
            \<and> cache_fetch q2 c = (c, Resolved (Payload p))
            \<and> (case map_of (cache c) (toLowerCase q2) of
                  Some p2 \<Rightarrow> k = toLowerCase q2
                | None \<Rightarrow> find (prefix_entry c (toLowerCase q2)) (object_keys (cache c)) = Some k
                          \<and> (filter (prefix_entry c (toLowerCase q2)) (object_keys (cache c))
                                = [toLowerCase q1] \<longrightarrow> p = p1)))
         \<and> (\<forall>q c' r. cache_fetch q c = (c', Pending r) \<longrightarrow>
               map_of (cache c) (toLowerCase q) = None
               \<and> find (prefix_entry c (toLowerCase q)) (object_keys (cache c)) = None)"
proof -
  let ?q = "toLowerCase q2"
  have first: "\<exists>k p. map_of (cache c) k = Some p
            \<and> cache_fetch q2 c = (c, Resolved (Payload p))
            \<and> (case map_of (cache c) ?q of
                  Some p2 \<Rightarrow> k = ?q
                | None \<Rightarrow> find (prefix_entry c ?q) (object_keys (cache c)) = Some k
                          \<and> (filter (prefix_entry c ?q) (object_keys (cache c))
                                = [toLowerCase q1] \<longrightarrow> p = p1))"
  proof (cases "map_of (cache c) ?q")
    case (Some p2)
    then have "cache_get c ?q = Payload p2" by (rule own_entry_read)
    then have "cache_fetch q2 c = (c, Resolved (Payload p2))"
      by (simp add: cache_fetch_def findInCache_exact Let_def truthy_def)
    then show ?thesis using Some by simp
  next
    case None
    have absent: "\<not> truthy (cache_get c ?q)"
      using not_inherited_read [OF assms(4) None] by (simp add: truthy_def)
    obtain k where k: "find (prefix_entry c ?q) (object_keys (cache c)) = Some k"
      using find_prefix_entry_Some [OF assms(1,2,3)] by blast
    then have "prefix_entry c ?q k" by (auto simp: find_Some_iff)
    then obtain p where p: "map_of (cache c) k = Some p"
      by (auto simp: prefix_entry_def split: option.splits)
    have found: "findInCache c q2 = Payload p"
      using absent k p by (simp add: findInCache_scan scan_keys_first)
    have only: "p = p1"
      if "filter (prefix_entry c ?q) (object_keys (cache c)) = [toLowerCase q1]"
    proof -
      have "k \<in> set (filter (prefix_entry c ?q) (object_keys (cache c)))"
        using k by (auto simp: find_Some_iff)
      then have "k = toLowerCase q1" using that by simp
      then show ?thesis using p assms(1) by simp
    qed
    have "cache_fetch q2 c = (c, Resolved (Payload p))"
      using found by (simp add: cache_fetch_def Let_def truthy_def)
    then show ?thesis using None k p only by auto
  qed
  have miss: "map_of (cache c) (toLowerCase q) = None
              \<and> find (prefix_entry c (toLowerCase q)) (object_keys (cache c)) = None"
    if "cache_fetch q c = (c', Pending r)" for q c' r
  proof -
    note m = fetch_miss [OF that]
    have "map_of (cache c) (toLowerCase q) = None"
      using m [THEN conjunct1] by (cases "map_of (cache c) (toLowerCase q)") (simp_all add: cache_get_def)
    then show ?thesis using m by simp
  qed
  show ?thesis using first miss by blast
qed

theorem fetch_reuses_cached_prefix_witness:
  "map_of (cache cache_jo_then_j) (toLowerCase (js ''JO'')) = Some payload_jo
   \<and> \<not> partial payload_jo
   \<and> startsWith (toLowerCase (js ''John'')) (toLowerCase (js ''JO''))
   \<and> inherited (cache_proto cache_jo_then_j) (toLowerCase (js ''John'')) = Absent
   \<and> cache_fetch (js ''John'') cache_jo_then_j = (cache_jo_then_j, Resolved (Payload payload_jo))
   \<and> requested (fst (cache_fetch (js ''John'') cache_jo_then_j)) = []"
proof -
  have a: "map_of (cache cache_jo_then_j) (toLowerCase (js ''JO'')) = Some payload_jo"
    by code_simp
  have b: "\<not> partial payload_jo" by (simp add: payload_jo_def)
  have c: "startsWith (toLowerCase (js ''John'')) (toLowerCase (js ''JO''))" by code_simp
  have i: "inherited (cache_proto cache_jo_then_j) (toLowerCase (js ''John'')) = Absent"
    by code_simp
  have d: "findInCache cache_jo_then_j (js ''John'') = Payload payload_jo" by code_simp
  have e: "requested cache_jo_then_j = []" by code_simp
  from fetch_reuses_cached_prefix [OF a b c i]
  obtain p where "cache_fetch (js ''John'') cache_jo_then_j = (cache_jo_then_j, Resolved (Payload p))"
    by blast
  moreover from this have "p = payload_jo"
    using d by (auto simp: cache_fetch_def Let_def truthy_def split: if_splits)
  ultimately show ?thesis using a b c i e by simp
qed

text \<open>
  Where C1 as stated fails: the cache holds \<open>jo\<close> and \<open>j\<close>, both not partial, and \<open>j\<close> is a
  prefix of \<open>john\<close>; fetching \<open>john\<close> resolves with the payload of \<open>jo\<close>, the first key
  the scan meets, and not with the payload of \<open>j\<close>. The cache is one the code builds: with
  only \<open>jo\<close> cached, fetching \<open>j\<close> goes to the network.
\<close>

theorem fetch_prefix_counterexample:
  "map_of (cache cache_jo_then_j) (toLowerCase (js ''j'')) = Some payload_j
   \<and> \<not> partial payload_j
   \<and> startsWith (toLowerCase (js ''john'')) (toLowerCase (js ''j''))
   \<and> snd (cache_fetch (js ''john'') cache_jo_then_j) = Resolved (Payload payload_jo)
   \<and> payload_jo \<noteq> payload_j
   \<and> snd (cache_fetch (js ''j'') (addToCache (js ''jo'') payload_jo (new_cache (js ''q'')))) = Pending 0"
proof -
  have "map_of (cache cache_jo_then_j) (toLowerCase (js ''j'')) = Some payload_j" by code_simp
  moreover have "\<not> partial payload_j" by (simp add: payload_j_def)
  moreover have "startsWith (toLowerCase (js ''john'')) (toLowerCase (js ''j''))" by code_simp
  moreover have "snd (cache_fetch (js ''john'') cache_jo_then_j) = Resolved (Payload payload_jo)"
    by code_simp
  moreover have "payload_jo \<noteq> payload_j" by (simp add: payload_jo_def payload_j_def)
  moreover have "snd (cache_fetch (js ''j'') (addToCache (js ''jo'') payload_jo (new_cache (js ''q'')))) = Pending 0"
    by code_simp
  ultimately show ?thesis by simp
qed


section \<open>Where \<open>indexOf\<close> finds the query\<close>

lemma startsWith_take: "startsWith s t \<longleftrightarrow> (length t \<le> length s \<and> take (length t) s = t)"
  by (induction s t rule: startsWith.induct) auto

lemma indexOf_from_neg: "indexOf_from s t i < 0 \<Longrightarrow> indexOf_from s t i = - 1"
  by (induction s t i rule: indexOf_from.induct) (auto split: if_splits)

lemma indexOf_from_ge: "0 \<le> indexOf_from s t i \<Longrightarrow> int i \<le> indexOf_from s t i"
proof (induction s t i rule: indexOf_from.induct)
  case (1 t i) then show ?case by (auto split: if_splits)
next
  case (2 c s t i) then show ?case by (fastforce split: if_splits)
qed

lemma indexOf_from_occurs:
  "0 \<le> indexOf_from s t i \<Longrightarrow>
     occurs_at s t (nat (indexOf_from s t i) - i)
     \<and> (\<forall>j < nat (indexOf_from s t i) - i. \<not> occurs_at s t j)"
proof (induction s t i rule: indexOf_from.induct)
  case (1 t i)
  then show ?case by (auto simp: occurs_at_def split: if_splits)
next
  case (2 c s t i)
  show ?case
  proof (cases "startsWith (c # s) t")
    case True
    then show ?thesis by (simp add: occurs_at_def startsWith_take)
  next
    case False
    then have eq: "indexOf_from (c # s) t i = indexOf_from s t (Suc i)" by simp
    with "2.prems" have ge: "0 \<le> indexOf_from s t (Suc i)" by simp
    from "2.IH" [OF False ge]
    have occ: "occurs_at s t (nat (indexOf_from s t (Suc i)) - Suc i)"
      and first: "\<forall>j < nat (indexOf_from s t (Suc i)) - Suc i. \<not> occurs_at s t j"
      by auto
    from indexOf_from_ge [OF ge] have le: "Suc i \<le> nat (indexOf_from s t (Suc i))" by linarith
    let ?p = "nat (indexOf_from s t (Suc i))"
    have p: "?p - i = Suc (?p - Suc i)" using le by simp
    have not0: "\<not> occurs_at (c # s) t 0" using False by (simp add: occurs_at_def startsWith_take)
    have shift: "occurs_at (c # s) t (Suc j) = occurs_at s t j" for j
      by (simp add: occurs_at_def)
    have "occurs_at (c # s) t (?p - i)" using occ p shift by simp
    moreover have "\<forall>j < ?p - i. \<not> occurs_at (c # s) t j"
    proof (intro allI impI)
      fix j assume "j < ?p - i"
      then show "\<not> occurs_at (c # s) t j"
        using not0 first shift p by (cases j) auto
    qed
    ultimately show ?thesis using eq by simp
  qed
qed

lemma indexOf_from_none:
  "indexOf_from s t i < 0 \<Longrightarrow> \<not> occurs_at s t j"
proof (induction s t i arbitrary: j rule: indexOf_from.induct)
  case (1 t i)
  then show ?case by (auto simp: occurs_at_def split: if_splits)
next
  case (2 c s t i)
  then have ns: "\<not> startsWith (c # s) t" and neg: "indexOf_from s t (Suc i) < 0"
    by (auto split: if_splits)
  show ?case
  proof (cases j)
    case 0
    then show ?thesis using ns by (simp add: occurs_at_def startsWith_take)
  next
    case (Suc k)
    then show ?thesis using "2.IH" [OF ns neg, of k] by (simp add: occurs_at_def)
  qed
qed

lemma indexOf_occurs:
  assumes "0 \<le> indexOf s t"
  shows "occurs_at s t (nat (indexOf s t))" and "\<forall>j < nat (indexOf s t). \<not> occurs_at s t j"
  using indexOf_from_occurs [of s t 0] assms by (simp_all add: indexOf_def)

lemma substring_ex: "substring s t \<longleftrightarrow> (\<exists>j. occurs_at s t j)"
proof -
  have "occurs_at s t j \<Longrightarrow> j < Suc (length s)" for j by (simp add: occurs_at_def)
  then show ?thesis
    unfolding substring_def list_ex_iff by (auto simp del: upt_Suc)
qed

lemma indexOf_substring: "0 \<le> indexOf s t \<longleftrightarrow> substring s t"
proof
  assume a: "0 \<le> indexOf s t"
  then have "occurs_at s t (nat (indexOf s t))" by (rule indexOf_occurs)
  then show "substring s t" unfolding substring_ex by blast
next
  assume "substring s t"
  then obtain j where "occurs_at s t j" unfolding substring_ex by blast
  then show "0 \<le> indexOf s t"
    using indexOf_from_none [of s t 0 j] by (auto simp: indexOf_def not_less [symmetric])
qed

lemma substring_iff: "substring s t \<longleftrightarrow> (\<exists>a b. s = a @ t @ b)"
proof
  assume "substring s t"
  then obtain j where j: "j + length t \<le> length s" "take (length t) (drop j s) = t"
    unfolding substring_ex by (auto simp: occurs_at_def)
  have "s = take j s @ take (length t) (drop j s) @ drop (length t) (drop j s)"
    by (simp only: append_take_drop_id)
  then show "\<exists>a b. s = a @ t @ b" using j(2) by metis
next
  assume "\<exists>a b. s = a @ t @ b"
  then obtain a b where s: "s = a @ t @ b" by blast
  have "occurs_at s t (length a)" by (simp add: s occurs_at_def)
  then show "substring s t" unfolding substring_ex by blast
qed

text \<open>
  The three nodes built for an item are cut out of the item itself, at the position the
  lowercased query has in the lowercased item.
\<close>

lemma item_nodes_slices:
  "item_nodes q item =
     [Text (take (nat (indexOf (toLowerCase item) (toLowerCase q))) item),
      Em (take (length q) (drop (nat (indexOf (toLowerCase item) (toLowerCase q))) item)),
      Text (drop (nat (indexOf (toLowerCase item) (toLowerCase q)) + length q) item)]"
  by (simp add: item_nodes_def highlight_def slice_def slice_from_def)


section \<open>List surgery\<close>

lemma insert_after_split:
  "\<exists>ys zs. cs = ys @ zs \<and> insert_after l x cs = ys @ x # zs"
proof (induction cs)
  case Nil
  then show ?case by simp
next
  case (Cons c cs)
  then obtain ys zs where s: "cs = ys @ zs" "insert_after l x cs = ys @ x # zs" by blast
  show ?case
  proof (cases "eid c = l")
    case True
    have "c # cs = [c] @ cs \<and> insert_after l x (c # cs) = [c] @ x # cs" using True by simp
    then show ?thesis by blast
  next
    case False
    have "c # cs = (c # ys) @ zs \<and> insert_after l x (c # cs) = (c # ys) @ x # zs"
      using False s by simp
    then show ?thesis by blast
  qed
qed

lemma insert_li_split:
  "\<exists>ys zs. cs = ys @ zs \<and> insert_li l x cs = ys @ x # zs"
proof (cases l)
  case None
  have "cs = [] @ cs \<and> insert_li l x cs = [] @ x # cs" using None by (simp add: insert_li_def)
  then show ?thesis by blast
next
  case (Some a)
  then show ?thesis using insert_after_split [of cs a x] by (simp add: insert_li_def)
qed

lemma set_insert_li [simp]: "set (insert_li l x cs) = insert x (set cs)"
  using insert_li_split [of cs l x] by auto

lemma filter_insert_li_not [simp]: "\<not> P x \<Longrightarrow> filter P (insert_li l x cs) = filter P cs"
proof -
  assume n: "\<not> P x"
  obtain ys zs where "cs = ys @ zs" "insert_li l x cs = ys @ x # zs"
    using insert_li_split by blast
  then show ?thesis using n by simp
qed

lemma distinct_insert_li:
  "distinct (map eid cs) \<Longrightarrow> eid x \<notin> eid ` set cs \<Longrightarrow> distinct (map eid (insert_li l x cs))"
proof -
  assume d: "distinct (map eid cs)" and n: "eid x \<notin> eid ` set cs"
  obtain ys zs where "cs = ys @ zs" "insert_li l x cs = ys @ x # zs"
    using insert_li_split by blast
  then show ?thesis using d n by auto
qed

section \<open>Simple facts\<close>

lemma erase_simps [simp]:
  "eid (erase e) = eid e" "classes (erase e) = classes e" "role (erase e) = role e"
  "aria_disabled (erase e) = aria_disabled e" "aria_selected (erase e) = aria_selected e"
  "data_value (erase e) = data_value e" "el_id (erase e) = el_id e"
  "content (erase e) = []"
  by (simp_all add: erase_def)

lemma erase_content [simp]: "erase (e\<lparr>content := c\<rparr>) = erase e"
  by (simp add: erase_def)

lemma erase_eq_fields:
  "erase a = erase b \<Longrightarrow> eid a = eid b \<and> classes a = classes b \<and> role a = role b
     \<and> aria_disabled a = aria_disabled b \<and> aria_selected a = aria_selected b
     \<and> data_value a = data_value b \<and> el_id a = el_id b"
  by (metis erase_simps)

lemma optionSelector_erase [simp]: "optionSelector (erase e) = optionSelector e"
  by (simp add: optionSelector_def)

lemma sorry_selector_erase [simp]: "sorry_selector (erase e) = sorry_selector e"
  by (simp add: sorry_selector_def)

lemma activeSelector_erase [simp]: "activeSelector (erase e) = activeSelector e"
  by (simp add: activeSelector_def)

lemma new_option_simps [simp]:
  "eid (new_option i v n) = i" "data_value (new_option i v n) = Some v"
  "content (new_option i v n) = n" "optionSelector (new_option i v n)"
  "\<not> sorry_selector (new_option i v n)" "\<not> activeSelector (new_option i v n)"
  "classes (new_option i v n) = [js ''list-group-item'']"
  by (simp_all add: new_option_def optionSelector_def sorry_selector_def activeSelector_def)

lemma sorry_li_simps [simp]:
  "eid (sorry_li i q) = i" "\<not> optionSelector (sorry_li i q)" "sorry_selector (sorry_li i q)"
  "\<not> activeSelector (sorry_li i q)" "content (sorry_li i q) = [Text (sorry_text q)]"
  "aria_disabled (sorry_li i q) = Some (js ''true'')"
  by (simp_all add: sorry_li_def optionSelector_def sorry_selector_def activeSelector_def)

section \<open>The rounds of the loop\<close>

lemma render_item_skip:
  "\<not> matches q item \<Longrightarrow> render_item ex q acc item = acc"
  by (simp add: render_item_def matches_def Let_def split: prod.splits)

lemma render_item_reuse:
  "matches q item \<Longrightarrow> find (\<lambda>li. data_value li = Some item) ex = Some li \<Longrightarrow>
     render_item ex q (st, l, sh) item =
       ((update_element (eid li) (\<lambda>e. e\<lparr>content := item_nodes q item\<rparr>) st)
          \<lparr>item_count := Suc (item_count st)\<rparr>, Some (eid li), sh @ [item])"
  by (simp add: render_item_def matches_def Let_def item_nodes_def update_element_def)

lemma render_item_create:
  "matches q item \<Longrightarrow> find (\<lambda>li. data_value li = Some item) ex = None \<Longrightarrow>
     render_item ex q (st, l, sh) item =
       (st\<lparr>next_eid := Suc (next_eid st),
           children := insert_li l (new_option (next_eid st) item (item_nodes q item)) (children st),
           item_count := Suc (item_count st)\<rparr>, Some (next_eid st), sh @ [item])"
  by (simp add: render_item_def matches_def Let_def item_nodes_def)

lemma foldl_invariant:
  assumes "P acc" and "\<And>a x. P a \<Longrightarrow> x \<in> set xs \<Longrightarrow> P (f a x)"
  shows "P (foldl f acc xs)"
  using assms by (induction xs arbitrary: acc) auto

lemma loop_shown:
  "snd (snd (foldl (render_item ex q) (st, l, sh) its)) = sh @ filter (matches q) its"
proof (induction its arbitrary: st l sh)
  case Nil
  then show ?case by simp
next
  case (Cons item its)
  show ?case
  proof (cases "matches q item")
    case False
    then show ?thesis using Cons by (simp add: render_item_skip)
  next
    case True
    then show ?thesis
      by (cases "find (\<lambda>li. data_value li = Some item) ex")
         (simp_all add: render_item_reuse render_item_create Cons)
  qed
qed

lemma loop_count:
  "item_count (fst (foldl (render_item ex q) (st, l, sh) its))
     = item_count st + length (filter (matches q) its)"
proof (induction its arbitrary: st l sh)
  case Nil
  then show ?case by simp
next
  case (Cons item its)
  show ?case
  proof (cases "matches q item")
    case False
    then show ?thesis using Cons by (simp add: render_item_skip)
  next
    case True
    then show ?thesis
      by (cases "find (\<lambda>li. data_value li = Some item) ex")
         (simp_all add: render_item_reuse render_item_create Cons update_element_def)
  qed
qed


section \<open>The invariant of the loop over the items\<close>

lemma option_for_Some:
  "option_for s v = Some li \<Longrightarrow>
     li \<in> set (children s) \<and> data_value li = Some v \<and> optionSelector li"
  by (auto simp: option_for_def options_def find_Some_iff dest: nth_mem)

lemma option_for_None:
  "option_for s v = None \<Longrightarrow> e \<in> set (children s) \<Longrightarrow> optionSelector e \<Longrightarrow>
     data_value e \<noteq> Some v"
  by (auto simp: option_for_def options_def find_None_iff)

lemma distinct_eid_eq:
  "distinct (map eid cs) \<Longrightarrow> a \<in> set cs \<Longrightarrow> b \<in> set cs \<Longrightarrow> eid a = eid b \<Longrightarrow> a = b"
  by (meson distinct_map inj_onD)

lemma map_keep: "e \<in> set cs \<Longrightarrow> f e = e \<Longrightarrow> e \<in> set (map f cs)"
  by (metis image_eqI set_map)

lemma loop_invD:
  assumes "loop_inv s q (st, l, sh)"
  shows "distinct (map eid (children st))"
    and "\<And>e. e \<in> set (children st) \<Longrightarrow> eid e < next_eid st"
    and "next_eid s \<le> next_eid st"
    and "map erase (filter (\<lambda>e. eid e < next_eid s) (children st)) = map erase (children s)"
    and "\<And>e. e \<in> set (children st) \<Longrightarrow> next_eid s \<le> eid e \<Longrightarrow>
           \<exists>v \<in> set sh. option_for s v = None \<and> e = new_option (eid e) v (item_nodes q v)"
    and "\<And>v. v \<in> set sh \<Longrightarrow> matches q v"
    and "\<And>v li e. v \<in> set sh \<Longrightarrow> option_for s v = Some li \<Longrightarrow> e \<in> set (children st) \<Longrightarrow>
           eid e = eid li \<Longrightarrow> content e = item_nodes q v"
    and "\<And>v. v \<in> set sh \<Longrightarrow> option_for s v = None \<Longrightarrow>
           \<exists>e \<in> set (children st). next_eid s \<le> eid e \<and> data_value e = Some v"
    and "frame st = frame s"
  using assms unfolding loop_inv_def prod.case by blast+

lemma loop_invI:
  assumes "distinct (map eid (children st))"
    and "\<And>e. e \<in> set (children st) \<Longrightarrow> eid e < next_eid st"
    and "next_eid s \<le> next_eid st"
    and "map erase (filter (\<lambda>e. eid e < next_eid s) (children st)) = map erase (children s)"
    and "\<And>e. e \<in> set (children st) \<Longrightarrow> next_eid s \<le> eid e \<Longrightarrow>
           \<exists>v \<in> set sh. option_for s v = None \<and> e = new_option (eid e) v (item_nodes q v)"
    and "\<And>v. v \<in> set sh \<Longrightarrow> matches q v"
    and "\<And>v li e. v \<in> set sh \<Longrightarrow> option_for s v = Some li \<Longrightarrow> e \<in> set (children st) \<Longrightarrow>
           eid e = eid li \<Longrightarrow> content e = item_nodes q v"
    and "\<And>v. v \<in> set sh \<Longrightarrow> option_for s v = None \<Longrightarrow>
           \<exists>e \<in> set (children st). next_eid s \<le> eid e \<and> data_value e = Some v"
    and "frame st = frame s"
  shows "loop_inv s q (st, l, sh)"
  unfolding loop_inv_def prod.case using assms by blast

lemma loop_inv_reuse:
  assumes inv: "loop_inv s q (st, l, sh)"
    and ds: "distinct (map eid (children s))"
    and bs: "\<And>e. e \<in> set (children s) \<Longrightarrow> eid e < next_eid s"
    and m: "matches q item"
    and f: "option_for s item = Some li"
  shows "loop_inv s q
           ((update_element (eid li) (\<lambda>e. e\<lparr>content := item_nodes q item\<rparr>) st)
              \<lparr>item_count := Suc (item_count st)\<rparr>, Some (eid li), sh @ [item])"
proof (rule loop_invI)
  let ?f = "\<lambda>e. if eid e = eid li then e\<lparr>content := item_nodes q item\<rparr> else e"
  let ?st' = "(update_element (eid li) (\<lambda>e. e\<lparr>content := item_nodes q item\<rparr>) st)
              \<lparr>item_count := Suc (item_count st)\<rparr>"
  note I = loop_invD [OF inv]
  from option_for_Some [OF f] have li: "li \<in> set (children s)" "data_value li = Some item"
    by auto
  then have lio: "eid li < next_eid s" using bs by blast
  have ch: "children ?st' = map ?f (children st)" by (simp add: update_element_def)
  have ne: "next_eid ?st' = next_eid st" by (simp add: update_element_def)
  have eids: "map eid (map ?f xs) = map eid xs" for xs by (induction xs) auto
  have mem: "\<exists>e0 \<in> set (children st). e = ?f e0 \<and> eid e = eid e0"
    if "e \<in> set (children ?st')" for e
  proof -
    from that have "e \<in> ?f ` set (children st)" unfolding ch by (simp only: set_map)
    then obtain e0 where e0: "e0 \<in> set (children st)" "e = ?f e0" by (rule imageE)
    have "e = ?f e0 \<and> eid e = eid e0" unfolding e0(2) by simp
    then show ?thesis using e0(1) by (rule bexI)
  qed
  have keep: "e \<in> set (children ?st')" if "e \<in> set (children st)" "eid e \<noteq> eid li" for e
  proof -
    have "?f e = e" using that(2) by simp
    then show ?thesis unfolding ch using that(1) by (rule map_keep [rotated])
  qed
  show "distinct (map eid (children ?st'))" unfolding ch eids by (rule I(1))
  show "eid e < next_eid ?st'" if "e \<in> set (children ?st')" for e
    using mem [OF that] I(2) ne by metis
  show "next_eid s \<le> next_eid ?st'" unfolding ne by (rule I(3))
  have "map erase (filter (\<lambda>e. eid e < next_eid s) (map ?f xs))
          = map erase (filter (\<lambda>e. eid e < next_eid s) xs)" for xs
    by (induction xs) auto
  then show "map erase (filter (\<lambda>e. eid e < next_eid s) (children ?st')) = map erase (children s)"
    unfolding ch using I(4) by (simp only:)
  show "\<exists>v \<in> set (sh @ [item]). option_for s v = None \<and> e = new_option (eid e) v (item_nodes q v)"
    if e: "e \<in> set (children ?st')" "next_eid s \<le> eid e" for e
  proof -
    obtain e0 where e0: "e0 \<in> set (children st)" "e = ?f e0" "eid e = eid e0"
      using mem [OF e(1)] by blast
    then have "eid e0 \<noteq> eid li" using e(2) lio by simp
    then have "e = e0" using e0(2) by simp
    then obtain v where "v \<in> set sh" "option_for s v = None" "e = new_option (eid e) v (item_nodes q v)"
      using I(5) [of e0] e0(1) e(2) by blast
    then show ?thesis by auto
  qed
  show "matches q v" if "v \<in> set (sh @ [item])" for v
    using that m I(6) by auto
  show "content e = item_nodes q v"
    if v: "v \<in> set (sh @ [item])" and o: "option_for s v = Some li2"
      and e: "e \<in> set (children ?st')" "eid e = eid li2" for v li2 e
  proof -
    from option_for_Some [OF o] have li2: "li2 \<in> set (children s)" "data_value li2 = Some v"
      by auto
    obtain e0 where e0: "e0 \<in> set (children st)" "e = ?f e0" "eid e = eid e0"
      using mem [OF e(1)] by blast
    show ?thesis
    proof (cases "eid e0 = eid li")
      case True
      then have "eid li2 = eid li" using e(2) e0(3) by simp
      then have "li2 = li" using distinct_eid_eq [OF ds li2(1) li(1)] by simp
      then have "v = item" using li li2 by simp
      then show ?thesis using True e0(2) by simp
    next
      case False
      then have ee: "e = e0" using e0(2) by simp
      have "v \<in> set sh"
      proof (rule ccontr)
        assume "v \<notin> set sh"
        then have "v = item" using v by simp
        then have "li2 = li" using o f by simp
        then show False using False e(2) e0(3) by simp
      qed
      then show ?thesis using I(7) [OF _ o e0(1)] e(2) ee by blast
    qed
  qed
  show "\<exists>e \<in> set (children ?st'). next_eid s \<le> eid e \<and> data_value e = Some v"
    if v: "v \<in> set (sh @ [item])" and o: "option_for s v = None" for v
  proof -
    have "v \<in> set sh" using v o f by auto
    then obtain e where e: "e \<in> set (children st)" "next_eid s \<le> eid e" "data_value e = Some v"
      using I(8) [OF _ o] by blast
    then have "eid e \<noteq> eid li" using lio by simp
    then have "e \<in> set (children ?st')" using keep e(1) by blast
    then show ?thesis using e by blast
  qed
  show "frame ?st' = frame s"
    using I(9) by (simp add: update_element_def frame_def)
qed

lemma loop_inv_create:
  assumes inv: "loop_inv s q (st, l, sh)"
    and bs: "\<And>e. e \<in> set (children s) \<Longrightarrow> eid e < next_eid s"
    and m: "matches q item"
    and f: "option_for s item = None"
  shows "loop_inv s q
           (st\<lparr>next_eid := Suc (next_eid st),
               children := insert_li l (new_option (next_eid st) item (item_nodes q item)) (children st),
               item_count := Suc (item_count st)\<rparr>, Some (next_eid st), sh @ [item])"
proof (rule loop_invI)
  let ?x = "new_option (next_eid st) item (item_nodes q item)"
  let ?st' = "st\<lparr>next_eid := Suc (next_eid st),
               children := insert_li l ?x (children st),
               item_count := Suc (item_count st)\<rparr>"
  note I = loop_invD [OF inv]
  have ch: "children ?st' = insert_li l ?x (children st)" by simp
  have ne: "next_eid ?st' = Suc (next_eid st)" by simp
  have mem: "e = ?x \<or> e \<in> set (children st)" if "e \<in> set (children ?st')" for e
    using that unfolding ch by simp
  have fresh: "eid ?x \<notin> eid ` set (children st)" using I(2) by fastforce
  show "distinct (map eid (children ?st'))"
    unfolding ch using I(1) fresh by (rule distinct_insert_li)
  show "eid e < next_eid ?st'" if "e \<in> set (children ?st')" for e
    using mem [OF that] I(2) [of e] unfolding ne by auto
  show "next_eid s \<le> next_eid ?st'" unfolding ne using I(3) by simp
  have "\<not> eid ?x < next_eid s" using I(3) by simp
  then have "filter (\<lambda>e. eid e < next_eid s) (insert_li l ?x (children st))
               = filter (\<lambda>e. eid e < next_eid s) (children st)"
    by (rule filter_insert_li_not)
  then show "map erase (filter (\<lambda>e. eid e < next_eid s) (children ?st')) = map erase (children s)"
    unfolding ch using I(4) by (simp only:)
  show "\<exists>v \<in> set (sh @ [item]). option_for s v = None \<and> e = new_option (eid e) v (item_nodes q v)"
    if e: "e \<in> set (children ?st')" "next_eid s \<le> eid e" for e
  proof (cases "e = ?x")
    case True
    then have "option_for s item = None \<and> e = new_option (eid e) item (item_nodes q item)"
      using f by simp
    then show ?thesis by auto
  next
    case False
    then have "e \<in> set (children st)" using mem [OF e(1)] by simp
    then obtain v where "v \<in> set sh" "option_for s v = None" "e = new_option (eid e) v (item_nodes q v)"
      using I(5) e(2) by blast
    then show ?thesis by auto
  qed
  show "matches q v" if "v \<in> set (sh @ [item])" for v
    using that m I(6) by auto
  show "content e = item_nodes q v"
    if v: "v \<in> set (sh @ [item])" and o: "option_for s v = Some li2"
      and e: "e \<in> set (children ?st')" "eid e = eid li2" for v li2 e
  proof -
    from option_for_Some [OF o] have "li2 \<in> set (children s)" by simp
    then have "eid li2 < next_eid s" using bs by blast
    then have "eid e \<noteq> eid ?x" using e(2) I(3) by simp
    then have e0: "e \<in> set (children st)" using mem [OF e(1)] by auto
    have "v \<in> set sh" using v o f by auto
    then show ?thesis using I(7) [OF _ o e0 e(2)] by simp
  qed
  show "\<exists>e \<in> set (children ?st'). next_eid s \<le> eid e \<and> data_value e = Some v"
    if v: "v \<in> set (sh @ [item])" and o: "option_for s v = None" for v
  proof (cases "v \<in> set sh")
    case True
    then obtain e where "e \<in> set (children st)" "next_eid s \<le> eid e" "data_value e = Some v"
      using I(8) [OF _ o] by blast
    then show ?thesis unfolding ch by auto
  next
    case False
    then have "v = item" using v by simp
    moreover have "?x \<in> set (children ?st')" unfolding ch by simp
    moreover have "next_eid s \<le> eid ?x" using I(3) by simp
    ultimately show ?thesis by (metis new_option_simps(2))
  qed
  show "frame ?st' = frame s"
    using I(9) by (simp add: frame_def)
qed

lemma loop_inv_step:
  assumes inv: "loop_inv s q acc"
    and ds: "distinct (map eid (children s))"
    and bs: "\<And>e. e \<in> set (children s) \<Longrightarrow> eid e < next_eid s"
  shows "loop_inv s q (render_item (options s) q acc item)"
proof -
  obtain st l sh where acc: "acc = (st, l, sh)" by (cases acc) auto
  show ?thesis
  proof (cases "matches q item")
    case False
    then show ?thesis using inv by (simp add: render_item_skip)
  next
    case True
    show ?thesis
    proof (cases "option_for s item")
      case None
      then have "find (\<lambda>li. data_value li = Some item) (options s) = None"
        by (simp add: option_for_def)
      from render_item_create [OF True this]
      show ?thesis
        unfolding acc using loop_inv_create [OF inv [unfolded acc] bs True None] by simp
    next
      case (Some li)
      then have "find (\<lambda>li. data_value li = Some item) (options s) = Some li"
        by (simp add: option_for_def)
      from render_item_reuse [OF True this]
      show ?thesis
        unfolding acc using loop_inv_reuse [OF inv [unfolded acc] ds bs True Some] by simp
    qed
  qed
qed

lemma loop_inv_start:
  assumes "distinct (map eid (children s))"
    and "\<And>e. e \<in> set (children s) \<Longrightarrow> eid e < next_eid s"
  shows "loop_inv s q (s, None, [])"
proof (rule loop_invI)
  have "filter (\<lambda>e. eid e < next_eid s) (children s) = children s"
    using assms(2) by (simp add: filter_id_conv)
  then show "map erase (filter (\<lambda>e. eid e < next_eid s) (children s)) = map erase (children s)"
    by simp
  show "\<exists>v \<in> set []. option_for s v = None \<and> e = new_option (eid e) v (item_nodes q v)"
    if "e \<in> set (children s)" "next_eid s \<le> eid e" for e
    using that assms(2) [of e] by simp
qed (use assms in simp_all)

lemma loop_inv_end:
  assumes "distinct (map eid (children s))"
    and "\<And>e. e \<in> set (children s) \<Longrightarrow> eid e < next_eid s"
  shows "loop_inv s q (foldl (render_item (options s) q) (s, None, []) its)"
  by (rule foldl_invariant) (use assms loop_inv_start loop_inv_step in blast)+


section \<open>The two loops of \<open>updateResults\<close> together\<close>

lemma find_filter_conv:
  "find P xs = (case filter P xs of [] \<Rightarrow> None | x # _ \<Rightarrow> Some x)"
  by (induction xs) auto

lemma find_filter: "find P (filter Q xs) = find (\<lambda>x. Q x \<and> P x) xs"
  by (induction xs) auto

lemma filter_map_erase:
  "(\<And>e. P (erase e) = P e) \<Longrightarrow> filter P (map erase xs) = map erase (filter P xs)"
  by (induction xs) auto

lemma updateResults_alt:
  "updateResults its q st =
     (if item_count (render_pass its q st) = 0 then showSorryMessage q (render_pass its q st)
      else hideSorryMessage (render_pass its q st))"
  by (simp add: updateResults_def render_pass_def Let_def split: prod.splits)

lemma remove_loop:
  "foldl (remove_unshown sh) st ex =
     st\<lparr>children := filter (\<lambda>e. eid e \<notin> eid ` {li \<in> set ex. stale sh li}) (children st)\<rparr>"
proof (induction ex arbitrary: st)
  case Nil
  then show ?case by simp
next
  case (Cons li ex)
  have eq: "eid ` {x \<in> set (li # ex). stale sh x}
        = (if stale sh li then {eid li} else {}) \<union> eid ` {x \<in> set ex. stale sh x}"
    by auto
  show ?case
  proof (cases "stale sh li")
    case True
    then have "remove_unshown sh st li = removeChild (eid li) st"
      by (simp add: remove_unshown_def stale_def)
    then show ?thesis
      unfolding foldl_Cons Cons eq using True
      by (simp add: removeChild_def conj_commute)
  next
    case False
    then have "remove_unshown sh st li = st"
      by (simp add: remove_unshown_def stale_def)
    then show ?thesis unfolding foldl_Cons Cons eq using False by simp
  qed
qed

lemma options_reset [simp]: "options (st\<lparr>item_count := n\<rparr>) = options st"
  by (simp add: options_def)

lemma option_for_reset [simp]: "option_for (st\<lparr>item_count := n\<rparr>) v = option_for st v"
  by (simp add: option_for_def)

lemma frame_reset [simp]: "frame (st\<lparr>item_count := n\<rparr>) = frame st"
  by (simp add: frame_def)

lemma render_pass_unfold:
  assumes "foldl (render_item (options st) q) (st\<lparr>item_count := 0\<rparr>, None, []) its = (st1, l, sh)"
  shows "render_pass its q st =
           st1\<lparr>children := filter (\<lambda>e. eid e \<notin> eid ` {li \<in> set (options st). stale sh li})
                              (children st1)\<rparr>"
  using assms by (simp add: render_pass_def Let_def remove_loop)

lemma stale_shown:
  "stale (filter (matches q) its) e \<longleftrightarrow>
     \<not> (\<exists>v. data_value e = Some v \<and> v \<in> set its \<and> matches q v)"
  by (cases "data_value e") (auto simp: stale_def array_includes_set)

lemma render_pass_facts:
  fixes st :: widget and its :: "jsstring list" and q :: jsstring
  assumes d: "distinct (map eid (children st))"
    and b: "\<And>e. e \<in> set (children st) \<Longrightarrow> eid e < next_eid st"
  defines "sh \<equiv> filter (matches q) its"
  defines "st2 \<equiv> render_pass its q st"
  shows "item_count st2 = length sh"
    and "frame st2 = frame st"
    and "distinct (map eid (children st2))"
    and "\<And>e. e \<in> set (children st2) \<Longrightarrow> eid e < next_eid st2"
    and "next_eid st \<le> next_eid st2"
    and "map erase (filter (\<lambda>e. eid e < next_eid st) (children st2))
           = map erase (filter (\<lambda>e. \<not> (optionSelector e \<and> stale sh e)) (children st))"
    and "\<And>e. e \<in> set (children st2) \<Longrightarrow> next_eid st \<le> eid e \<Longrightarrow>
           \<exists>v \<in> set sh. option_for st v = None \<and> e = new_option (eid e) v (item_nodes q v)"
    and "\<And>v li. v \<in> set sh \<Longrightarrow> option_for st v = Some li \<Longrightarrow>
           \<exists>e \<in> set (children st2). eid e = eid li"
    and "\<And>v li e. v \<in> set sh \<Longrightarrow> option_for st v = Some li \<Longrightarrow> e \<in> set (children st2) \<Longrightarrow>
           eid e = eid li \<Longrightarrow> content e = item_nodes q v"
    and "\<And>v. v \<in> set sh \<Longrightarrow> option_for st v = None \<Longrightarrow>
           \<exists>e \<in> set (children st2). next_eid st \<le> eid e \<and> data_value e = Some v"
proof -
  let ?s = "st\<lparr>item_count := 0\<rparr>"
  have cs: "children ?s = children st" and ns: "next_eid ?s = next_eid st" by simp_all
  obtain st1 l sh1 where L: "foldl (render_item (options st) q) (?s, None, []) its = (st1, l, sh1)"
    by (cases "foldl (render_item (options st) q) (?s, None, []) its") auto
  have "sh1 = sh" using loop_shown [of "options st" q ?s None "[]" its] L by (simp add: sh_def)
  note L = L [unfolded this]
  have cnt: "item_count st1 = length sh"
    using loop_count [of "options st" q ?s None "[]" its] L by (simp add: sh_def)
  have "loop_inv ?s q (foldl (render_item (options ?s) q) (?s, None, []) its)"
    by (rule loop_inv_end) (simp_all add: d b)
  then have inv: "loop_inv ?s q (st1, l, sh)" using L by simp
  note I = loop_invD [OF inv, unfolded cs ns option_for_reset frame_reset]
  let ?R = "eid ` {li \<in> set (options st). stale sh li}"
  have st2: "st2 = st1\<lparr>children := filter (\<lambda>e. eid e \<notin> ?R) (children st1)\<rparr>"
    unfolding st2_def using L by (rule render_pass_unfold)
  have ch: "children st2 = filter (\<lambda>e. eid e \<notin> ?R) (children st1)"
    and ne: "next_eid st2 = next_eid st1" and ic: "item_count st2 = item_count st1"
    and fr: "frame st2 = frame st1"
    by (simp_all add: st2 frame_def)
  have sub: "e \<in> set (children st1)" if "e \<in> set (children st2)" for e
    using that unfolding ch by simp
  have Rold: "i < next_eid st" if "i \<in> ?R" for i
    using that b by (auto simp: options_def)
  have inR: "eid e \<in> ?R \<longleftrightarrow> optionSelector e \<and> stale sh e" if e: "e \<in> set (children st)" for e
  proof
    assume "eid e \<in> ?R"
    then obtain li where li: "li \<in> set (options st)" "stale sh li" "eid li = eid e" by auto
    then have "li \<in> set (children st)" by (simp add: options_def)
    then have "li = e" using distinct_eid_eq [OF d _ e] li(3) by simp
    then show "optionSelector e \<and> stale sh e" using li by (simp add: options_def)
  next
    assume "optionSelector e \<and> stale sh e"
    then have "e \<in> {li \<in> set (options st). stale sh li}" using e by (simp add: options_def)
    then show "eid e \<in> ?R" by (rule imageI)
  qed
  show "item_count st2 = length sh" using cnt ic by simp
  show "frame st2 = frame st" using fr I(9) by simp
  show "distinct (map eid (children st2))" unfolding ch using I(1) by (rule distinct_map_filter)
  show "eid e < next_eid st2" if "e \<in> set (children st2)" for e
    unfolding ne using sub [OF that] by (rule I(2))
  show "next_eid st \<le> next_eid st2" unfolding ne by (rule I(3))
  show "map erase (filter (\<lambda>e. eid e < next_eid st) (children st2))
           = map erase (filter (\<lambda>e. \<not> (optionSelector e \<and> stale sh e)) (children st))"
  proof -
    have "filter (\<lambda>e. eid e < next_eid st) (children st2)
            = filter (\<lambda>e. eid e \<notin> ?R) (filter (\<lambda>e. eid e < next_eid st) (children st1))"
      unfolding ch by (simp add: conj_commute)
    then have "map erase (filter (\<lambda>e. eid e < next_eid st) (children st2))
            = filter (\<lambda>e. eid e \<notin> ?R) (map erase (filter (\<lambda>e. eid e < next_eid st) (children st1)))"
      by (simp add: filter_map_erase)
    also have "\<dots> = filter (\<lambda>e. eid e \<notin> ?R) (map erase (children st))"
      by (simp only: I(4))
    also have "\<dots> = map erase (filter (\<lambda>e. eid e \<notin> ?R) (children st))"
      by (simp add: filter_map_erase)
    also have "filter (\<lambda>e. eid e \<notin> ?R) (children st)
                 = filter (\<lambda>e. \<not> (optionSelector e \<and> stale sh e)) (children st)"
      by (rule filter_cong) (simp_all add: inR)
    finally show ?thesis .
  qed
  show "\<exists>v \<in> set sh. option_for st v = None \<and> e = new_option (eid e) v (item_nodes q v)"
    if "e \<in> set (children st2)" "next_eid st \<le> eid e" for e
    using I(5) [OF sub [OF that(1)] that(2)] .
  show "\<exists>e \<in> set (children st2). eid e = eid li"
    if v: "v \<in> set sh" and o: "option_for st v = Some li" for v li
  proof -
    from option_for_Some [OF o]
    have li: "li \<in> set (children st)" "data_value li = Some v" "optionSelector li" by auto
    have "\<not> stale sh li" using li(2) v by (simp add: stale_def array_includes_set)
    then have notR: "eid li \<notin> ?R" using inR [OF li(1)] by simp
    have "erase li \<in> set (map erase (children st))" using li(1) by simp
    then have "erase li \<in> set (map erase (filter (\<lambda>e. eid e < next_eid st) (children st1)))"
      by (simp only: I(4))
    then obtain e where e: "e \<in> set (children st1)" "erase e = erase li" by auto
    then have "eid e = eid li" by (metis erase_simps(1))
    then have "e \<in> set (children st2) \<and> eid e = eid li" unfolding ch using e(1) notR by simp
    then show ?thesis by blast
  qed
  show "content e = item_nodes q v"
    if "v \<in> set sh" "option_for st v = Some li" "e \<in> set (children st2)" "eid e = eid li"
    for v li e
    using I(7) [OF that(1) that(2) sub [OF that(3)] that(4)] .
  show "\<exists>e \<in> set (children st2). next_eid st \<le> eid e \<and> data_value e = Some v"
    if v: "v \<in> set sh" and o: "option_for st v = None" for v
  proof -
    obtain e where e: "e \<in> set (children st1)" "next_eid st \<le> eid e" "data_value e = Some v"
      using I(8) [OF v o] by blast
    have "eid e \<notin> ?R" using Rold [of "eid e"] e(2) by auto
    then have "e \<in> set (children st2)" unfolding ch using e(1) by simp
    then show ?thesis using e by blast
  qed
qed


section \<open>What the two loops leave in the list\<close>

lemma frame_fields:
  assumes "frame a = frame b"
  shows "events a = events b" "hidden a = hidden b" "selectedClasses a = selectedClasses b"
    "uniqOptionId a = uniqOptionId b" "results_id a = results_id b" "height a = height b"
    "li_height a = li_height b" "activedescendant a = activedescendant b"
    "expanded a = expanded b" "urlValue a = urlValue b"
    "abortController a = abortController b" "aborted a = aborted b"
    "requested a = requested b" "next_request a = next_request b"
proof -
  have "events (frame a) = events (frame b)" "hidden (frame a) = hidden (frame b)"
    "selectedClasses (frame a) = selectedClasses (frame b)"
    "uniqOptionId (frame a) = uniqOptionId (frame b)" "results_id (frame a) = results_id (frame b)"
    "height (frame a) = height (frame b)"
    "li_height (frame a) = li_height (frame b)" "activedescendant (frame a) = activedescendant (frame b)"
    "expanded (frame a) = expanded (frame b)" "urlValue (frame a) = urlValue (frame b)"
    "abortController (frame a) = abortController (frame b)" "aborted (frame a) = aborted (frame b)"
    "requested (frame a) = requested (frame b)" "next_request (frame a) = next_request (frame b)"
    using assms by simp_all
  then show "events a = events b" "hidden a = hidden b" "selectedClasses a = selectedClasses b"
    "uniqOptionId a = uniqOptionId b" "results_id a = results_id b" "height a = height b"
    "li_height a = li_height b" "activedescendant a = activedescendant b"
    "expanded a = expanded b" "urlValue a = urlValue b"
    "abortController a = abortController b" "aborted a = aborted b"
    "requested a = requested b" "next_request a = next_request b"
    by (simp_all add: frame_def)
qed

lemma mem_map: "x \<in> set xs \<Longrightarrow> f x \<in> set (map f xs)"
  by simp

lemma render_pass_old:
  fixes st :: widget and its :: "jsstring list" and q :: jsstring
  assumes d: "distinct (map eid (children st))"
    and b: "\<And>e. e \<in> set (children st) \<Longrightarrow> eid e < next_eid st"
    and e: "e \<in> set (children (render_pass its q st))"
    and old: "eid e < next_eid st"
  shows "\<exists>e0 \<in> set (children st). erase e0 = erase e
            \<and> \<not> (optionSelector e0 \<and> stale (filter (matches q) its) e0)"
proof -
  have "e \<in> set (filter (\<lambda>e. eid e < next_eid st) (children (render_pass its q st)))"
    using e old by simp
  then have "erase e \<in> set (map erase (filter (\<lambda>e. eid e < next_eid st) (children (render_pass its q st))))"
    by (rule mem_map)
  then have "erase e \<in> set (map erase
      (filter (\<lambda>e. \<not> (optionSelector e \<and> stale (filter (matches q) its) e)) (children st)))"
    by (simp only: render_pass_facts(6) [OF d b])
  then obtain e0 where "e0 \<in> set (children st)"
    "\<not> (optionSelector e0 \<and> stale (filter (matches q) its) e0)" "erase e = erase e0"
    by auto
  then show ?thesis by metis
qed

lemma render_pass_origin:
  fixes st :: widget and its :: "jsstring list" and q :: jsstring
  assumes d: "distinct (map eid (children st))"
    and b: "\<And>e. e \<in> set (children st) \<Longrightarrow> eid e < next_eid st"
    and e: "e \<in> set (children (render_pass its q st))"
  shows "(\<exists>e0 \<in> set (children st). erase e0 = erase e
            \<and> \<not> (optionSelector e0 \<and> stale (filter (matches q) its) e0))
         \<or> (\<exists>v \<in> set (filter (matches q) its). option_for st v = None
              \<and> e = new_option (eid e) v (item_nodes q v))"
proof (cases "eid e < next_eid st")
  case True
  then show ?thesis using render_pass_old [OF d b e] by blast
next
  case False
  then have "next_eid st \<le> eid e" by simp
  from render_pass_facts(7) [OF d b e this] show ?thesis by blast
qed

lemma render_pass_option_values:
  fixes st :: widget and its :: "jsstring list" and q :: jsstring
  assumes d: "distinct (map eid (children st))"
    and b: "\<And>e. e \<in> set (children st) \<Longrightarrow> eid e < next_eid st"
  shows "(\<exists>e \<in> set (options (render_pass its q st)). data_value e = Some v)
           \<longleftrightarrow> v \<in> set its \<and> matches q v"
proof
  assume "\<exists>e \<in> set (options (render_pass its q st)). data_value e = Some v"
  then obtain e where e: "e \<in> set (children (render_pass its q st))" "optionSelector e"
    "data_value e = Some v" by (auto simp: options_def)
  from render_pass_origin [OF d b e(1)] show "v \<in> set its \<and> matches q v"
  proof
    assume "\<exists>e0 \<in> set (children st). erase e0 = erase e
            \<and> \<not> (optionSelector e0 \<and> stale (filter (matches q) its) e0)"
    then obtain e0 where e0: "erase e0 = erase e"
      "\<not> (optionSelector e0 \<and> stale (filter (matches q) its) e0)" by blast
    have "optionSelector e0" using e(2) e0(1) by (metis optionSelector_erase)
    moreover have "data_value e0 = Some v" using e(3) e0(1) by (metis erase_simps(6))
    ultimately show ?thesis using e0(2) by (auto simp: stale_shown)
  next
    assume "\<exists>v \<in> set (filter (matches q) its). option_for st v = None
              \<and> e = new_option (eid e) v (item_nodes q v)"
    then obtain v' where "v' \<in> set (filter (matches q) its)"
      "e = new_option (eid e) v' (item_nodes q v')" by blast
    then show ?thesis using e(3) by (metis new_option_simps(2) option.inject mem_Collect_eq set_filter)
  qed
next
  assume v: "v \<in> set its \<and> matches q v"
  then have vs: "v \<in> set (filter (matches q) its)" by simp
  show "\<exists>e \<in> set (options (render_pass its q st)). data_value e = Some v"
  proof (cases "option_for st v")
    case None
    from render_pass_facts(10) [OF d b vs None]
    obtain e where e: "e \<in> set (children (render_pass its q st))" "next_eid st \<le> eid e"
      "data_value e = Some v" by blast
    from render_pass_facts(7) [OF d b e(1) e(2)]
    have "optionSelector e" by (metis new_option_simps(4))
    then show ?thesis using e by (auto simp: options_def)
  next
    case (Some li)
    from option_for_Some [OF Some]
    have li: "li \<in> set (children st)" "data_value li = Some v" "optionSelector li" by auto
    from render_pass_facts(8) [OF d b vs Some]
    obtain e where e: "e \<in> set (children (render_pass its q st))" "eid e = eid li" by blast
    have "eid e < next_eid st" using e(2) b [OF li(1)] by simp
    then obtain e0 where e0: "e0 \<in> set (children st)" "erase e0 = erase e"
      using render_pass_old [OF d b e(1)] by blast
    then have "eid e0 = eid li" using e(2) by (metis erase_simps(1))
    then have "e0 = li" using distinct_eid_eq [OF d e0(1) li(1)] by simp
    then have "erase e = erase li" using e0(2) by simp
    then have "optionSelector e" "data_value e = Some v"
      using li by (metis optionSelector_erase, metis erase_simps(6))
    then show ?thesis using e(1) by (auto simp: options_def)
  qed
qed

lemma find_Some_filter: "find P xs = Some x \<Longrightarrow> \<exists>r. filter P xs = x # r"
  by (simp add: find_filter_conv split: list.splits)

lemma option_for_find:
  "option_for st v = find (\<lambda>e. optionSelector e \<and> data_value e = Some v) (children st)"
  by (simp add: option_for_def options_def find_filter)

lemma render_pass_first_content:
  fixes st :: widget and its :: "jsstring list" and q :: jsstring
  assumes d: "distinct (map eid (children st))"
    and b: "\<And>e. e \<in> set (children st) \<Longrightarrow> eid e < next_eid st"
    and o2: "option_for (render_pass its q st) v = Some e"
  shows "content e = item_nodes q v"
proof -
  let ?st2 = "render_pass its q st"
  let ?sh = "filter (matches q) its"
  let ?P = "\<lambda>e. optionSelector e \<and> data_value e = Some v"
  let ?old = "\<lambda>e. eid e < next_eid st"
  let ?keep = "\<lambda>e. \<not> (optionSelector e \<and> stale ?sh e)"
  from option_for_Some [OF o2]
  have e: "e \<in> set (children ?st2)" "data_value e = Some v" "optionSelector e" by auto
  then have "\<exists>e \<in> set (options ?st2). data_value e = Some v" by (auto simp: options_def)
  then have vs: "v \<in> set ?sh" using render_pass_option_values [OF d b] by simp
  have newv: "option_for st v = None"
    if x: "x \<in> set (children ?st2)" "data_value x = Some v" "next_eid st \<le> eid x" for x
  proof -
    obtain v' where v': "option_for st v' = None" "x = new_option (eid x) v' (item_nodes q v')"
      using render_pass_facts(7) [OF d b x(1) x(3)] by blast
    then have "data_value x = Some v'" by (metis new_option_simps(2))
    then show ?thesis using x(2) v'(1) by simp
  qed
  show ?thesis
  proof (cases "option_for st v")
    case None
    have "\<not> eid e < next_eid st"
    proof
      assume "eid e < next_eid st"
      then obtain e0 where e0: "e0 \<in> set (children st)" "erase e0 = erase e"
        using render_pass_old [OF d b e(1)] by blast
      have "optionSelector e0" using e(3) e0(2) by (metis optionSelector_erase)
      moreover have "data_value e0 = Some v" using e(2) e0(2) by (metis erase_simps(6))
      ultimately show False using option_for_None [OF None e0(1)] by simp
    qed
    then have "next_eid st \<le> eid e" by simp
    then obtain v' where v': "e = new_option (eid e) v' (item_nodes q v')"
      using render_pass_facts(7) [OF d b e(1)] by blast
    then have "data_value e = Some v'" "content e = item_nodes q v'"
      by (metis new_option_simps(2), metis new_option_simps(3))
    then show ?thesis using e(2) by simp
  next
    case (Some li)
    have allold: "?old x" if "x \<in> set (children ?st2)" "?P x" for x
    proof (rule ccontr)
      assume "\<not> ?old x"
      then have "option_for st v = None" using newv [of x] that by simp
      then show False using Some by simp
    qed
    have "filter ?P (filter ?old (children ?st2)) = filter ?P (children ?st2)"
      unfolding filter_filter by (rule filter_cong) (use allold in auto)
    then have "map erase (filter ?P (children ?st2))
                 = filter ?P (map erase (filter ?old (children ?st2)))"
      by (simp add: filter_map_erase)
    also have "\<dots> = filter ?P (map erase (filter ?keep (children st)))"
      by (simp only: render_pass_facts(6) [OF d b])
    also have "\<dots> = map erase (filter ?P (filter ?keep (children st)))"
      by (simp add: filter_map_erase)
    also have "filter ?P (filter ?keep (children st)) = filter ?P (children st)"
      unfolding filter_filter
      by (rule filter_cong) (use vs in \<open>auto simp: stale_def array_includes_set\<close>)
    finally have eq: "map erase (filter ?P (children ?st2)) = map erase (filter ?P (children st))" .
    have "find ?P (children st) = Some li" using Some unfolding option_for_find .
    from find_Some_filter [OF this]
    obtain r where r: "filter ?P (children st) = li # r" ..
    have "find ?P (children ?st2) = Some e" using o2 unfolding option_for_find .
    from find_Some_filter [OF this]
    obtain r2 where r2: "filter ?P (children ?st2) = e # r2" ..
    have "erase e = erase li" using eq unfolding r r2 by simp
    then have "eid e = eid li" by (metis erase_simps(1))
    then show ?thesis using render_pass_facts(9) [OF d b vs Some e(1)] by simp
  qed
qed


section \<open>The placeholder step, and the state the operations keep well formed\<close>

lemma well_formed_iff:
  "well_formed st \<longleftrightarrow>
     distinct (map eid (children st))
     \<and> (\<forall>e \<in> set (children st). eid e < next_eid st)
     \<and> (\<forall>e \<in> set (children st). optionSelector e \<longrightarrow> plain_classes (classes e))
     \<and> (\<forall>e \<in> set (children st). activeSelector e \<longrightarrow> optionSelector e)
     \<and> (options st \<noteq> [] \<longrightarrow> 0 < item_count st)
     \<and> plain_classes (selectedClassesOrDefault st)"
  by (simp add: well_formed_def list_all_iff)

lemma well_formedD:
  assumes "well_formed st"
  shows "distinct (map eid (children st))"
    and "\<And>e. e \<in> set (children st) \<Longrightarrow> eid e < next_eid st"
    and "\<And>e. e \<in> set (children st) \<Longrightarrow> optionSelector e \<Longrightarrow> plain_classes (classes e)"
    and "\<And>e. e \<in> set (children st) \<Longrightarrow> activeSelector e \<Longrightarrow> optionSelector e"
    and "options st \<noteq> [] \<Longrightarrow> 0 < item_count st"
    and "plain_classes (selectedClassesOrDefault st)"
  using assms unfolding well_formed_iff by blast+

lemma well_formedI:
  assumes "distinct (map eid (children st))"
    and "\<And>e. e \<in> set (children st) \<Longrightarrow> eid e < next_eid st"
    and "\<And>e. e \<in> set (children st) \<Longrightarrow> optionSelector e \<Longrightarrow> plain_classes (classes e)"
    and "\<And>e. e \<in> set (children st) \<Longrightarrow> activeSelector e \<Longrightarrow> optionSelector e"
    and "options st \<noteq> [] \<Longrightarrow> 0 < item_count st"
    and "plain_classes (selectedClassesOrDefault st)"
  shows "well_formed st"
  unfolding well_formed_iff using assms by blast

lemma plain_not_sorry: "plain_classes (classes e) \<Longrightarrow> \<not> sorry_selector e"
  by (simp add: plain_classes_def sorry_selector_def)

lemma option_not_sorry:
  "well_formed st \<Longrightarrow> e \<in> set (children st) \<Longrightarrow> optionSelector e \<Longrightarrow> \<not> sorry_selector e"
  using well_formedD(3) [of st e] plain_not_sorry by blast

lemma selectedClassesOrDefault_frame:
  "frame a = frame b \<Longrightarrow> selectedClassesOrDefault a = selectedClassesOrDefault b"
  using frame_fields(3) [of a b] by (simp add: selectedClassesOrDefault_def)

lemma setHeight_fields [simp]:
  "children (setHeight st) = children st" "next_eid (setHeight st) = next_eid st"
  "item_count (setHeight st) = item_count st" "events (setHeight st) = events st"
  "hidden (setHeight st) = hidden st" "selectedClasses (setHeight st) = selectedClasses st"
  "uniqOptionId (setHeight st) = uniqOptionId st" "results_id (setHeight st) = results_id st"
  by (simp_all add: setHeight_def split: list.splits)

lemma showSorryMessage_fields [simp]:
  "children (showSorryMessage q st) = children st @ [sorry_li (next_eid st) q]"
  "next_eid (showSorryMessage q st) = Suc (next_eid st)"
  "item_count (showSorryMessage q st) = item_count st"
  "events (showSorryMessage q st) = events st"
  "hidden (showSorryMessage q st) = hidden st"
  "selectedClasses (showSorryMessage q st) = selectedClasses st"
  "uniqOptionId (showSorryMessage q st) = uniqOptionId st"
  "results_id (showSorryMessage q st) = results_id st"
  by (simp_all add: showSorryMessage_def Let_def)

lemma hideSorryMessage_fields [simp]:
  "next_eid (hideSorryMessage st) = next_eid st"
  "item_count (hideSorryMessage st) = item_count st"
  "events (hideSorryMessage st) = events st"
  "hidden (hideSorryMessage st) = hidden st"
  "selectedClasses (hideSorryMessage st) = selectedClasses st"
  "uniqOptionId (hideSorryMessage st) = uniqOptionId st"
  "results_id (hideSorryMessage st) = results_id st"
  by (simp_all add: hideSorryMessage_def removeChild_def split: option.splits)

lemma selectedClassesOrDefault_cong:
  "selectedClasses a = selectedClasses b \<Longrightarrow> selectedClassesOrDefault a = selectedClassesOrDefault b"
  by (simp add: selectedClassesOrDefault_def)

lemma filter_eid_remove:
  assumes "distinct (map eid (ys @ x # zs))"
  shows "filter (\<lambda>e. eid e \<noteq> eid x) (ys @ x # zs) = ys @ zs"
proof -
  have "\<forall>e \<in> set ys. eid e \<noteq> eid x" "\<forall>e \<in> set zs. eid e \<noteq> eid x"
    using assms by (auto simp: image_iff)
  then show ?thesis by (simp add: filter_id_conv)
qed

lemma find_split:
  "find P xs = Some x \<Longrightarrow> \<exists>ys zs. xs = ys @ x # zs \<and> P x \<and> (\<forall>y \<in> set ys. \<not> P y)"
proof (induction xs)
  case Nil
  then show ?case by simp
next
  case (Cons a xs)
  show ?case
  proof (cases "P a")
    case True
    then have "a # xs = [] @ x # xs \<and> P x \<and> (\<forall>y \<in> set []. \<not> P y)" using Cons.prems by simp
    then show ?thesis by blast
  next
    case False
    then obtain ys zs where "xs = ys @ x # zs" "P x" "\<forall>y \<in> set ys. \<not> P y"
      using Cons by auto
    then have "a # xs = (a # ys) @ x # zs \<and> P x \<and> (\<forall>y \<in> set (a # ys). \<not> P y)"
      using False by simp
    then show ?thesis by blast
  qed
qed

lemma hideSorryMessage_none:
  "sorry_messages st = [] \<Longrightarrow> hideSorryMessage st = st"
proof -
  assume "sorry_messages st = []"
  then have "find sorry_selector (children st) = None"
    by (simp add: sorry_messages_def find_None_iff filter_empty_conv)
  then show ?thesis by (simp add: hideSorryMessage_def)
qed

lemma hideSorryMessage_some:
  assumes d: "distinct (map eid (children st))" and n: "sorry_messages st \<noteq> []"
  shows "\<exists>ys x zs. children st = ys @ x # zs \<and> children (hideSorryMessage st) = ys @ zs
                   \<and> sorry_selector x \<and> (\<forall>y \<in> set ys. \<not> sorry_selector y)"
proof -
  from n obtain x where x: "find sorry_selector (children st) = Some x"
    by (cases "find sorry_selector (children st)")
       (auto simp: sorry_messages_def find_None_iff filter_empty_conv)
  from find_split [OF this] obtain ys zs where
    s: "children st = ys @ x # zs" "sorry_selector x" "\<forall>y \<in> set ys. \<not> sorry_selector y" by blast
  have "children (hideSorryMessage st) = filter (\<lambda>e. eid e \<noteq> eid x) (children st)"
    using x by (simp add: hideSorryMessage_def removeChild_def)
  also have "\<dots> = ys @ zs" unfolding s(1) by (rule filter_eid_remove) (use d s(1) in simp)
  finally show ?thesis using s by blast
qed

lemma hideSorryMessage_sorry:
  assumes d: "distinct (map eid (children st))"
  shows "sorry_messages (hideSorryMessage st) = tl (sorry_messages st)"
proof (cases "sorry_messages st = []")
  case True
  then show ?thesis by (simp add: hideSorryMessage_none)
next
  case False
  from hideSorryMessage_some [OF d False] obtain ys x zs where
    s: "children st = ys @ x # zs" "children (hideSorryMessage st) = ys @ zs"
       "sorry_selector x" "\<forall>y \<in> set ys. \<not> sorry_selector y" by blast
  have "filter sorry_selector ys = []" using s(4) by (simp add: filter_empty_conv)
  then show ?thesis unfolding sorry_messages_def s(1) s(2) using s(3) by simp
qed

lemma hideSorryMessage_options:
  assumes d: "distinct (map eid (children st))"
    and p: "\<And>e. e \<in> set (children st) \<Longrightarrow> optionSelector e \<Longrightarrow> \<not> sorry_selector e"
  shows "options (hideSorryMessage st) = options st"
proof (cases "sorry_messages st = []")
  case True
  then show ?thesis by (simp add: hideSorryMessage_none)
next
  case False
  from hideSorryMessage_some [OF d False] obtain ys x zs where
    s: "children st = ys @ x # zs" "children (hideSorryMessage st) = ys @ zs"
       "sorry_selector x" by blast
  have "\<not> optionSelector x" using p [of x] s(1) s(3) by auto
  then show ?thesis unfolding options_def s(1) s(2) by simp
qed

lemma hideSorryMessage_subset:
  "set (children (hideSorryMessage st)) \<subseteq> set (children st)"
  by (auto simp: hideSorryMessage_def removeChild_def split: option.splits)

lemma showSorryMessage_options [simp]: "options (showSorryMessage q st) = options st"
  by (simp add: options_def)

lemma well_formed_render_pass:
  assumes wf: "well_formed st"
  shows "well_formed (render_pass its q st)"
proof (rule well_formedI)
  note d = well_formedD(1) [OF wf] and b = well_formedD(2) [OF wf]
  let ?st2 = "render_pass its q st"
  let ?sh = "filter (matches q) its"
  show "distinct (map eid (children ?st2))" by (rule render_pass_facts(3) [OF d b])
  show "eid e < next_eid ?st2" if "e \<in> set (children ?st2)" for e
    using that render_pass_facts(4) [OF d b, of e its q] by blast
  show "plain_classes (classes e)" if e: "e \<in> set (children ?st2)" "optionSelector e" for e
    using render_pass_origin [OF d b e(1)]
  proof
    assume "\<exists>e0 \<in> set (children st). erase e0 = erase e \<and> \<not> (optionSelector e0 \<and> stale ?sh e0)"
    then obtain e0 where e0: "e0 \<in> set (children st)" "erase e0 = erase e" by blast
    have "optionSelector e0" using e(2) e0(2) by (metis optionSelector_erase)
    then have "plain_classes (classes e0)" using well_formedD(3) [OF wf e0(1)] by simp
    then show ?thesis using e0(2) by (metis erase_simps(2))
  next
    assume "\<exists>v \<in> set ?sh. option_for st v = None \<and> e = new_option (eid e) v (item_nodes q v)"
    then obtain v where "e = new_option (eid e) v (item_nodes q v)" by blast
    then have "classes e = [js ''list-group-item'']" by (metis new_option_simps(7))
    then show ?thesis by (simp add: plain_classes_def)
  qed
  show "optionSelector e" if e: "e \<in> set (children ?st2)" "activeSelector e" for e
    using render_pass_origin [OF d b e(1)]
  proof
    assume "\<exists>e0 \<in> set (children st). erase e0 = erase e \<and> \<not> (optionSelector e0 \<and> stale ?sh e0)"
    then obtain e0 where e0: "e0 \<in> set (children st)" "erase e0 = erase e" by blast
    have "activeSelector e0" using e(2) e0(2) by (metis activeSelector_erase)
    then have "optionSelector e0" using well_formedD(4) [OF wf e0(1)] by simp
    then show ?thesis using e0(2) by (metis optionSelector_erase)
  next
    assume "\<exists>v \<in> set ?sh. option_for st v = None \<and> e = new_option (eid e) v (item_nodes q v)"
    then obtain v where "e = new_option (eid e) v (item_nodes q v)" by blast
    then show ?thesis by (metis new_option_simps(4))
  qed
  show "0 < item_count ?st2" if "options ?st2 \<noteq> []"
  proof -
    from that have "hd (options ?st2) \<in> set (options ?st2)" by simp
    then obtain e where "e \<in> set (options ?st2)" ..
    then have e: "e \<in> set (children ?st2)" "optionSelector e" by (simp_all add: options_def)
    have "?sh \<noteq> []"
      using render_pass_origin [OF d b e(1)]
    proof
      assume "\<exists>e0 \<in> set (children st). erase e0 = erase e \<and> \<not> (optionSelector e0 \<and> stale ?sh e0)"
      then obtain e0 where e0: "erase e0 = erase e" "\<not> (optionSelector e0 \<and> stale ?sh e0)" by blast
      have "optionSelector e0" using e(2) e0(1) by (metis optionSelector_erase)
      then have "\<not> stale ?sh e0" using e0(2) by simp
      then obtain v where "v \<in> set ?sh"
        by (cases "data_value e0") (auto simp: stale_def array_includes_set)
      then show ?thesis by (metis empty_iff empty_set)
    next
      assume "\<exists>v \<in> set ?sh. option_for st v = None \<and> e = new_option (eid e) v (item_nodes q v)"
      then obtain v where "v \<in> set ?sh" by blast
      then show ?thesis by (metis empty_iff empty_set)
    qed
    then show ?thesis using render_pass_facts(1) [OF d b, of its q] by simp
  qed
  show "plain_classes (selectedClassesOrDefault ?st2)"
    using well_formedD(6) [OF wf] selectedClassesOrDefault_frame [OF render_pass_facts(2) [OF d b, of its q]]
    by simp
qed

lemma well_formed_showSorryMessage:
  assumes wf: "well_formed st"
  shows "well_formed (showSorryMessage q st)"
proof (rule well_formedI)
  have "eid (sorry_li (next_eid st) q) \<notin> eid ` set (children st)"
    using well_formedD(2) [OF wf] by fastforce
  then show "distinct (map eid (children (showSorryMessage q st)))"
    using well_formedD(1) [OF wf] by simp
  show "eid e < next_eid (showSorryMessage q st)" if "e \<in> set (children (showSorryMessage q st))" for e
    using that well_formedD(2) [OF wf, of e] by auto
  show "plain_classes (classes e)"
    if "e \<in> set (children (showSorryMessage q st))" "optionSelector e" for e
    using that well_formedD(3) [OF wf, of e] by auto
  show "optionSelector e"
    if "e \<in> set (children (showSorryMessage q st))" "activeSelector e" for e
    using that well_formedD(4) [OF wf, of e] by auto
  show "0 < item_count (showSorryMessage q st)" if "options (showSorryMessage q st) \<noteq> []"
    using that well_formedD(5) [OF wf] by simp
  show "plain_classes (selectedClassesOrDefault (showSorryMessage q st))"
    using well_formedD(6) [OF wf]
    by (simp add: selectedClassesOrDefault_cong [of "showSorryMessage q st" st])
qed

lemma well_formed_hideSorryMessage:
  assumes wf: "well_formed st"
  shows "well_formed (hideSorryMessage st)"
proof (rule well_formedI)
  note sub = hideSorryMessage_subset [of st]
  have ch: "children (hideSorryMessage st) = children st
            \<or> (\<exists>i. children (hideSorryMessage st) = filter (\<lambda>e. eid e \<noteq> i) (children st))"
    by (auto simp: hideSorryMessage_def removeChild_def split: option.splits)
  then show "distinct (map eid (children (hideSorryMessage st)))"
    using well_formedD(1) [OF wf] by (auto intro: distinct_map_filter)
  show "eid e < next_eid (hideSorryMessage st)" if "e \<in> set (children (hideSorryMessage st))" for e
    using that sub well_formedD(2) [OF wf, of e] by auto
  show "plain_classes (classes e)"
    if "e \<in> set (children (hideSorryMessage st))" "optionSelector e" for e
    using that sub well_formedD(3) [OF wf, of e] by auto
  show "optionSelector e"
    if "e \<in> set (children (hideSorryMessage st))" "activeSelector e" for e
    using that sub well_formedD(4) [OF wf, of e] by auto
  have "options (hideSorryMessage st) = options st"
    using hideSorryMessage_options [OF well_formedD(1) [OF wf]] option_not_sorry [OF wf] by blast
  then show "0 < item_count (hideSorryMessage st)" if "options (hideSorryMessage st) \<noteq> []"
    using that well_formedD(5) [OF wf] by simp
  show "plain_classes (selectedClassesOrDefault (hideSorryMessage st))"
    using well_formedD(6) [OF wf]
    by (simp add: selectedClassesOrDefault_cong [of "hideSorryMessage st" st])
qed

lemma well_formed_updateResults:
  "well_formed st \<Longrightarrow> well_formed (updateResults its q st)"
  unfolding updateResults_alt
  by (simp add: well_formed_render_pass well_formed_showSorryMessage well_formed_hideSorryMessage)

lemma options_updateResults:
  assumes wf: "well_formed st"
  shows "options (updateResults its q st) = options (render_pass its q st)"
proof -
  have wf2: "well_formed (render_pass its q st)" using wf by (rule well_formed_render_pass)
  have "options (hideSorryMessage (render_pass its q st)) = options (render_pass its q st)"
    using hideSorryMessage_options [OF well_formedD(1) [OF wf2]] option_not_sorry [OF wf2] by blast
  then show ?thesis unfolding updateResults_alt by simp
qed

lemma option_for_updateResults:
  "well_formed st \<Longrightarrow> option_for (updateResults its q st) v = option_for (render_pass its q st) v"
  by (simp add: option_for_def options_updateResults)

lemma updateResults_fields:
  assumes wf: "well_formed st"
  shows "item_count (updateResults its q st) = length (filter (matches q) its)"
    and "events (updateResults its q st) = events st"
    and "hidden (updateResults its q st) = hidden st"
    and "uniqOptionId (updateResults its q st) = uniqOptionId st"
    and "results_id (updateResults its q st) = results_id st"
    and "selectedClasses (updateResults its q st) = selectedClasses st"
proof -
  note d = well_formedD(1) [OF wf] and b = well_formedD(2) [OF wf]
  note f = frame_fields [OF render_pass_facts(2) [OF d b, of its q]]
  show "item_count (updateResults its q st) = length (filter (matches q) its)"
    unfolding updateResults_alt using render_pass_facts(1) [OF d b, of its q] by simp
  show "events (updateResults its q st) = events st"
    unfolding updateResults_alt using f(1) by simp
  show "hidden (updateResults its q st) = hidden st"
    unfolding updateResults_alt using f(2) by simp
  show "uniqOptionId (updateResults its q st) = uniqOptionId st"
    unfolding updateResults_alt using f(4) by simp
  show "results_id (updateResults its q st) = results_id st"
    unfolding updateResults_alt using f(5) by simp
  show "selectedClasses (updateResults its q st) = selectedClasses st"
    unfolding updateResults_alt using f(3) by simp
qed


section \<open>Rendered items and their highlighted span\<close>

lemma render_pass_options_shown:
  assumes wf: "well_formed st" and e: "e \<in> set (options (render_pass its q st))"
  shows "\<exists>v. data_value e = Some v \<and> v \<in> set its \<and> matches q v"
proof -
  note d = well_formedD(1) [OF wf] and b = well_formedD(2) [OF wf]
  let ?sh = "filter (matches q) its"
  from e have e': "e \<in> set (children (render_pass its q st))" "optionSelector e"
    by (simp_all add: options_def)
  from render_pass_origin [OF d b e'(1)] show ?thesis
  proof
    assume "\<exists>e0 \<in> set (children st). erase e0 = erase e \<and> \<not> (optionSelector e0 \<and> stale ?sh e0)"
    then obtain e0 where e0: "erase e0 = erase e" "\<not> (optionSelector e0 \<and> stale ?sh e0)" by blast
    have "optionSelector e0" using e'(2) e0(1) by (metis optionSelector_erase)
    then have "\<not> stale ?sh e0" using e0(2) by simp
    then obtain v where "data_value e0 = Some v" "v \<in> set its" "matches q v"
      unfolding stale_shown by blast
    moreover have "data_value e = data_value e0" using e0(1) by (metis erase_simps(6))
    ultimately show ?thesis by simp
  next
    assume "\<exists>v \<in> set ?sh. option_for st v = None \<and> e = new_option (eid e) v (item_nodes q v)"
    then obtain v where v: "v \<in> set ?sh" "e = new_option (eid e) v (item_nodes q v)" by blast
    then have "data_value e = Some v" by (metis new_option_simps(2))
    then show ?thesis using v(1) by simp
  qed
qed

lemma matches_substring: "matches q item \<longleftrightarrow> substring (toLowerCase item) (toLowerCase q)"
  by (simp add: matches_def indexOf_substring)

text \<open>
  What holds of every pass: the list has an option for an item exactly when the item is in
  the list handed over and its lowercased form contains the lowercased query, and the
  element \<open>find\<close> picks for an item has the three nodes built for the item.
\<close>

lemma updateResults_renders_iff:
  assumes "well_formed st"
  shows "(\<exists>e \<in> set (options (updateResults its q st)). data_value e = Some item)
           \<longleftrightarrow> item \<in> set its \<and> substring (toLowerCase item) (toLowerCase q)"
  using render_pass_option_values [OF well_formedD(1) [OF assms] well_formedD(2) [OF assms], of its q item]
  by (simp add: options_updateResults [OF assms] matches_substring)

lemma updateResults_first_content:
  assumes "well_formed st" and "option_for (updateResults its q st) item = Some e"
  shows "content e = item_nodes q item"
proof -
  note d = well_formedD(1) [OF assms(1)] and b = well_formedD(2) [OF assms(1)]
  have o: "option_for (render_pass its q st) item = Some e"
    using assms(2) by (simp add: option_for_updateResults [OF assms(1)])
  show ?thesis using render_pass_first_content [OF d b, of its q item e] o by blast
qed

text \<open>
  C4. The highlighted span is not always the part of the item that matches. The position
  is found in the lowercased item and the span is cut out of the item itself, and the two
  do not line up once a letter before the match has a longer lowercase form: the
  lowercase form of \<open>Istanbul\<close> written with U+0130 has a combining dot as its second code
  unit, the query \<open>stan\<close> is found at position 2 of it, and the element gets the text of
  the first two code units of the item, the span \<open>tanb\<close> and the text \<open>ul\<close>, although the
  item has \<open>stan\<close> at position 1. And an item that the response lists twice gets two
  elements, of which a later pass brings only the first up to date: after the queries
  \<open>jo\<close> and \<open>o\<close> the second element for \<open>Jo\<close> still has the span \<open>Jo\<close>.
\<close>

theorem highlight_misses_match:
  "toLowerCase istanbul = js ''i'' @ [0x307] @ js ''stanbul''
   \<and> indexOf (toLowerCase istanbul) (toLowerCase (js ''stan'')) = 2
   \<and> map data_value (options (updateResults [istanbul] (js ''stan'') connected)) = [Some istanbul]
   \<and> map content (options (updateResults [istanbul] (js ''stan'') connected))
       = [[Text (0x130 # js ''s''), Em (js ''tanb''), Text (js ''ul'')]]
   \<and> slice istanbul 1 5 = js ''stan''
   \<and> map data_value (options (updateResults [js ''Jo'', js ''Jo''] (js ''o'')
                              (updateResults [js ''Jo'', js ''Jo''] (js ''jo'') connected)))
       = [Some (js ''Jo''), Some (js ''Jo'')]
   \<and> map content (options (updateResults [js ''Jo'', js ''Jo''] (js ''o'')
                           (updateResults [js ''Jo'', js ''Jo''] (js ''jo'') connected)))
       = [[Text (js ''J''), Em (js ''o''), Text []], [Text [], Em (js ''Jo''), Text []]]"
proof -
  have 1: "toLowerCase istanbul = js ''i'' @ [0x307] @ js ''stanbul''" by code_simp
  have 2: "indexOf (toLowerCase istanbul) (toLowerCase (js ''stan'')) = 2" by code_simp
  have 3: "map data_value (options (updateResults [istanbul] (js ''stan'') connected))
             = [Some istanbul]" by code_simp
  have 4: "map content (options (updateResults [istanbul] (js ''stan'') connected))
       = [[Text (0x130 # js ''s''), Em (js ''tanb''), Text (js ''ul'')]]" by code_simp
  have 5: "slice istanbul 1 5 = js ''stan''" by code_simp
  have 6: "map data_value (options (updateResults [js ''Jo'', js ''Jo''] (js ''o'')
                              (updateResults [js ''Jo'', js ''Jo''] (js ''jo'') connected)))
       = [Some (js ''Jo''), Some (js ''Jo'')]" by code_simp
  have 7: "map content (options (updateResults [js ''Jo'', js ''Jo''] (js ''o'')
                           (updateResults [js ''Jo'', js ''Jo''] (js ''jo'') connected)))
       = [[Text (js ''J''), Em (js ''o''), Text []], [Text [], Em (js ''Jo''), Text []]]"
    by code_simp
  show ?thesis by (intro conjI 1 2 3 4 5 6 7)
qed


section \<open>A second pass over the same items\<close>

lemma loop_all_found:
  assumes "\<And>item. item \<in> set its \<Longrightarrow> matches q item \<Longrightarrow>
             find (\<lambda>li. data_value li = Some item) ex \<noteq> None"
  shows "map erase (children (fst (foldl (render_item ex q) (st, l, sh) its))) = map erase (children st)
         \<and> next_eid (fst (foldl (render_item ex q) (st, l, sh) its)) = next_eid st"
  using assms
proof (induction its arbitrary: st l sh)
  case Nil
  then show ?case by simp
next
  case (Cons item its)
  have rest: "\<And>i. i \<in> set its \<Longrightarrow> matches q i \<Longrightarrow> find (\<lambda>li. data_value li = Some i) ex \<noteq> None"
    using Cons.prems by simp
  show ?case
  proof (cases "matches q item")
    case False
    then show ?thesis using Cons.IH [OF rest] by (simp add: render_item_skip)
  next
    case True
    then obtain li where li: "find (\<lambda>li. data_value li = Some item) ex = Some li"
      using Cons.prems [of item] by auto
    let ?st' = "(update_element (eid li) (\<lambda>e. e\<lparr>content := item_nodes q item\<rparr>) st)
                  \<lparr>item_count := Suc (item_count st)\<rparr>"
    have step: "render_item ex q (st, l, sh) item = (?st', Some (eid li), sh @ [item])"
      by (rule render_item_reuse [OF True li])
    have "map erase (map (\<lambda>e. if eid e = eid li then e\<lparr>content := item_nodes q item\<rparr> else e) xs)
            = map erase xs" for xs
      by (induction xs) auto
    then have a: "map erase (children ?st') = map erase (children st)"
      by (simp add: update_element_def)
    have b: "next_eid ?st' = next_eid st" by (simp add: update_element_def)
    show ?thesis
      unfolding foldl_Cons step using Cons.IH [OF rest, of ?st' "Some (eid li)" "sh @ [item]"] a b
      by simp
  qed
qed

lemma render_pass_again:
  assumes wf: "well_formed st"
    and found: "\<And>item. item \<in> set its \<Longrightarrow> matches q item \<Longrightarrow> option_for st item \<noteq> None"
    and shown: "\<And>e. e \<in> set (options st) \<Longrightarrow> \<not> stale (filter (matches q) its) e"
  shows "map erase (children (render_pass its q st)) = map erase (children st)"
    and "next_eid (render_pass its q st) = next_eid st"
proof -
  let ?s = "st\<lparr>item_count := 0\<rparr>"
  let ?sh = "filter (matches q) its"
  obtain st1 l sh1 where L: "foldl (render_item (options st) q) (?s, None, []) its = (st1, l, sh1)"
    by (cases "foldl (render_item (options st) q) (?s, None, []) its") auto
  have "sh1 = ?sh" using loop_shown [of "options st" q ?s None "[]" its] L by simp
  note L = L [unfolded this]
  have "map erase (children (fst (foldl (render_item (options st) q) (?s, None, []) its)))
          = map erase (children ?s)
        \<and> next_eid (fst (foldl (render_item (options st) q) (?s, None, []) its)) = next_eid ?s"
    by (rule loop_all_found) (use found in \<open>simp add: option_for_def\<close>)
  then have l1: "map erase (children st1) = map erase (children st)" "next_eid st1 = next_eid st"
    unfolding L by simp_all
  have R: "eid ` {li \<in> set (options st). stale ?sh li} = {}" using shown by blast
  have "children (render_pass its q st)
          = filter (\<lambda>e. eid e \<notin> eid ` {li \<in> set (options st). stale ?sh li}) (children st1)"
    and n: "next_eid (render_pass its q st) = next_eid st1"
    unfolding render_pass_unfold [OF L] by simp_all
  then have "children (render_pass its q st) = children st1" unfolding R by simp
  with n show "map erase (children (render_pass its q st)) = map erase (children st)"
    and "next_eid (render_pass its q st) = next_eid st"
    using l1 by simp_all
qed

lemma updateResults_second_pass:
  fixes s0 :: widget and its :: "jsstring list" and q :: jsstring
  assumes wf: "well_formed s0"
  defines "s1 \<equiv> updateResults its q s0"
  shows "map erase (children (render_pass its q s1)) = map erase (children s1)"
    and "next_eid (render_pass its q s1) = next_eid s1"
proof -
  note d = well_formedD(1) [OF wf] and b = well_formedD(2) [OF wf]
  have wf1: "well_formed s1" unfolding s1_def using wf by (rule well_formed_updateResults)
  have o1: "options s1 = options (render_pass its q s0)"
    unfolding s1_def using wf by (rule options_updateResults)
  have found: "option_for s1 item \<noteq> None" if "item \<in> set its" "matches q item" for item
  proof -
    have "\<exists>e \<in> set (options s1). data_value e = Some item"
      unfolding o1 using render_pass_option_values [OF d b, of its q item] that by simp
    then show ?thesis by (auto simp: option_for_def find_None_iff)
  qed
  have shown: "\<not> stale (filter (matches q) its) e" if "e \<in> set (options s1)" for e
    using render_pass_options_shown [OF wf, of e its q] that
    unfolding o1 stale_shown by blast
  show "map erase (children (render_pass its q s1)) = map erase (children s1)"
    using wf1 found shown by (rule render_pass_again(1))
  show "next_eid (render_pass its q s1) = next_eid s1"
    using wf1 found shown by (rule render_pass_again(2))
qed

lemma map_erase_filter:
  "(\<And>e. P (erase e) = P e) \<Longrightarrow> map erase xs = map erase ys \<Longrightarrow>
     map erase (filter P xs) = map erase (filter P ys)"
  by (metis filter_map_erase)

lemma sorry_messages_render_pass:
  assumes wf: "well_formed st"
  shows "map erase (sorry_messages (render_pass its q st)) = map erase (sorry_messages st)"
proof -
  note d = well_formedD(1) [OF wf] and b = well_formedD(2) [OF wf]
  let ?st2 = "render_pass its q st"
  let ?sh = "filter (matches q) its"
  let ?old = "\<lambda>e. eid e < next_eid st"
  let ?keep = "\<lambda>e. \<not> (optionSelector e \<and> stale ?sh e)"
  have allold: "?old x" if x: "x \<in> set (children ?st2)" "sorry_selector x" for x
  proof (rule ccontr)
    assume "\<not> ?old x"
    then have "next_eid st \<le> eid x" by simp
    then obtain v where "x = new_option (eid x) v (item_nodes q v)"
      using render_pass_facts(7) [OF d b x(1)] by blast
    then have "\<not> sorry_selector x" by (metis new_option_simps(5))
    then show False using x(2) by simp
  qed
  have "filter sorry_selector (filter ?old (children ?st2)) = filter sorry_selector (children ?st2)"
    unfolding filter_filter by (rule filter_cong) (use allold in auto)
  then have "map erase (filter sorry_selector (children ?st2))
               = filter sorry_selector (map erase (filter ?old (children ?st2)))"
    by (simp add: filter_map_erase)
  also have "\<dots> = filter sorry_selector (map erase (filter ?keep (children st)))"
    by (simp only: render_pass_facts(6) [OF d b])
  also have "\<dots> = map erase (filter sorry_selector (filter ?keep (children st)))"
    by (simp add: filter_map_erase)
  also have "filter sorry_selector (filter ?keep (children st)) = filter sorry_selector (children st)"
    unfolding filter_filter
    by (rule filter_cong) (use option_not_sorry [OF wf] in auto)
  finally show ?thesis by (simp add: sorry_messages_def)
qed

lemma options_nonempty_updateResults:
  assumes wf: "well_formed st"
  shows "options (updateResults its q st) \<noteq> [] \<longleftrightarrow> filter (matches q) its \<noteq> []"
proof
  note d = well_formedD(1) [OF wf] and b = well_formedD(2) [OF wf]
  assume "options (updateResults its q st) \<noteq> []"
  then have "hd (options (render_pass its q st)) \<in> set (options (render_pass its q st))"
    by (simp add: options_updateResults [OF wf])
  from render_pass_options_shown [OF wf this]
  obtain v where "v \<in> set its" "matches q v" by blast
  then have "v \<in> set (filter (matches q) its)" by simp
  then show "filter (matches q) its \<noteq> []" by (metis empty_iff empty_set)
next
  note d = well_formedD(1) [OF wf] and b = well_formedD(2) [OF wf]
  assume "filter (matches q) its \<noteq> []"
  then have "hd (filter (matches q) its) \<in> set (filter (matches q) its)" by (rule hd_in_set)
  then obtain v where "v \<in> set (filter (matches q) its)" ..
  then have "v \<in> set its" "matches q v" by simp_all
  then have "\<exists>e \<in> set (options (render_pass its q st)). data_value e = Some v"
    using render_pass_option_values [OF d b, of its q v] by simp
  then show "options (updateResults its q st) \<noteq> []"
    unfolding options_updateResults [OF wf] by auto
qed

text \<open>
  C5, as amended. Let \<open>updateResults\<close> run twice with the same items and query, from any
  well-formed state. The second run keeps every option element: the same elements in the
  same order with the same attributes, only their children may be replaced. When at least
  one item is rendered it creates no element, and when moreover no placeholder was left in
  the list, the whole list keeps its elements. When no item is rendered, the second run
  creates a new element for the placeholder, which it puts last: a placeholder is not
  reused.
\<close>

theorem rerender_reuses_options:
  assumes "well_formed s0"
  shows "map erase (options (updateResults its q (updateResults its q s0)))
           = map erase (options (updateResults its q s0))
         \<and> (options (updateResults its q s0) \<noteq> [] \<longrightarrow>
               next_eid (updateResults its q (updateResults its q s0))
                 = next_eid (updateResults its q s0)
               \<and> (sorry_messages (updateResults its q s0) = [] \<longrightarrow>
                    map erase (children (updateResults its q (updateResults its q s0)))
                      = map erase (children (updateResults its q s0))))
         \<and> (options (updateResults its q s0) = [] \<longrightarrow>
               last (children (updateResults its q (updateResults its q s0)))
                 = sorry_li (next_eid (updateResults its q s0)) q
               \<and> next_eid (updateResults its q s0)
                   \<notin> eid ` set (children (updateResults its q s0))
               \<and> next_eid (updateResults its q (updateResults its q s0))
                   = Suc (next_eid (updateResults its q s0)))"
proof -
  let ?s1 = "updateResults its q s0"
  let ?rp = "render_pass its q ?s1"
  have wf1: "well_formed ?s1" using assms by (rule well_formed_updateResults)
  note sp = updateResults_second_pass [OF assms, of its q]
  have o2: "options (updateResults its q ?s1) = options ?rp"
    using wf1 by (rule options_updateResults)
  have "map erase (filter optionSelector (children ?rp))
          = map erase (filter optionSelector (children ?s1))"
    by (rule map_erase_filter) (simp_all add: sp(1))
  then have A: "map erase (options (updateResults its q ?s1)) = map erase (options ?s1)"
    unfolding o2 by (simp add: options_def)
  have B: "next_eid (updateResults its q ?s1) = next_eid ?s1
           \<and> (sorry_messages ?s1 = [] \<longrightarrow>
                 map erase (children (updateResults its q ?s1)) = map erase (children ?s1))"
    if ne: "options ?s1 \<noteq> []"
  proof -
    have "filter (matches q) its \<noteq> []" using ne options_nonempty_updateResults [OF assms] by simp
    then have "item_count ?rp \<noteq> 0"
      using render_pass_facts(1) [OF well_formedD(1) [OF wf1] well_formedD(2) [OF wf1], of its q]
      by simp
    then have u: "updateResults its q ?s1 = hideSorryMessage ?rp" by (simp add: updateResults_alt)
    have n: "next_eid (updateResults its q ?s1) = next_eid ?s1" unfolding u using sp(2) by simp
    have "map erase (children (updateResults its q ?s1)) = map erase (children ?s1)"
      if "sorry_messages ?s1 = []"
    proof -
      have "map erase (filter sorry_selector (children ?rp))
              = map erase (filter sorry_selector (children ?s1))"
        by (rule map_erase_filter) (simp_all add: sp(1))
      then have "sorry_messages ?rp = []" using that by (simp add: sorry_messages_def)
      then show ?thesis unfolding u by (simp add: hideSorryMessage_none sp(1))
    qed
    with n show ?thesis by blast
  qed
  have C: "last (children (updateResults its q ?s1)) = sorry_li (next_eid ?s1) q
           \<and> next_eid ?s1 \<notin> eid ` set (children ?s1)
           \<and> next_eid (updateResults its q ?s1) = Suc (next_eid ?s1)"
    if em: "options ?s1 = []"
  proof -
    have "filter (matches q) its = []" using em options_nonempty_updateResults [OF assms] by simp
    then have "item_count ?rp = 0"
      using render_pass_facts(1) [OF well_formedD(1) [OF wf1] well_formedD(2) [OF wf1], of its q]
      by simp
    then have u: "updateResults its q ?s1 = showSorryMessage q ?rp" by (simp add: updateResults_alt)
    have n: "next_eid ?rp = next_eid ?s1" by (rule sp(2))
    have new: "next_eid ?s1 \<notin> eid ` set (children ?s1)"
      using well_formedD(2) [OF wf1] by fastforce
    show ?thesis unfolding u using n new by simp
  qed
  show ?thesis using A B C by blast
qed

theorem rerender_reuses_options_witness:
  "well_formed connected
   \<and> options (updateResults [js ''John'', js ''Johnny'', js ''Bob''] (js ''OHN'') connected) \<noteq> []
   \<and> sorry_messages (updateResults [js ''John'', js ''Johnny'', js ''Bob''] (js ''OHN'') connected) = []
   \<and> next_eid (updateResults [js ''John'', js ''Johnny'', js ''Bob''] (js ''OHN'')
                 (updateResults [js ''John'', js ''Johnny'', js ''Bob''] (js ''OHN'') connected)) = 2
   \<and> map erase (children (updateResults [js ''John'', js ''Johnny'', js ''Bob''] (js ''OHN'')
                 (updateResults [js ''John'', js ''Johnny'', js ''Bob''] (js ''OHN'') connected)))
       = map erase (children (updateResults [js ''John'', js ''Johnny'', js ''Bob''] (js ''OHN'') connected))
   \<and> options (updateResults [js ''Bob''] (js ''zz'') connected) = []
   \<and> last (children (updateResults [js ''Bob''] (js ''zz'')
                       (updateResults [js ''Bob''] (js ''zz'') connected)))
       = sorry_li 1 (js ''zz'')"
proof -
  have wf: "well_formed connected" by code_simp
  have a: "options (updateResults [js ''John'', js ''Johnny'', js ''Bob''] (js ''OHN'') connected) \<noteq> []"
    by code_simp
  have b: "sorry_messages (updateResults [js ''John'', js ''Johnny'', js ''Bob''] (js ''OHN'') connected) = []"
    by code_simp
  have c: "next_eid (updateResults [js ''John'', js ''Johnny'', js ''Bob''] (js ''OHN'') connected) = 2"
    by code_simp
  have z: "options (updateResults [js ''Bob''] (js ''zz'') connected) = []" by code_simp
  have n: "next_eid (updateResults [js ''Bob''] (js ''zz'') connected) = 1" by code_simp
  note t = rerender_reuses_options [OF wf, of "[js ''John'', js ''Johnny'', js ''Bob'']" "js ''OHN''"]
  note u = rerender_reuses_options [OF wf, of "[js ''Bob'']" "js ''zz''"]
  note t2 = t [THEN conjunct2, THEN conjunct1, THEN mp, OF a]
  have d: "next_eid (updateResults [js ''John'', js ''Johnny'', js ''Bob''] (js ''OHN'')
                 (updateResults [js ''John'', js ''Johnny'', js ''Bob''] (js ''OHN'') connected)) = 2"
    using t2 [THEN conjunct1] c by simp
  note e = t2 [THEN conjunct2, THEN mp, OF b]
  have f: "last (children (updateResults [js ''Bob''] (js ''zz'')
                       (updateResults [js ''Bob''] (js ''zz'') connected)))
       = sorry_li 1 (js ''zz'')"
    using u [THEN conjunct2, THEN conjunct2, THEN mp, OF z, THEN conjunct1] n by simp
  show ?thesis by (intro conjI wf a b d e z f)
qed

text \<open>
  Where C5 as stated fails: with no item to render, the first pass leaves one placeholder
  (element 0) and the second pass, over the same empty list, creates a new element for the
  placeholder (element 1). The cache-backed build creates a new element there as well.
\<close>

theorem rerender_placeholder_counterexample:
  "map eid (children (updateResults [] (js ''zz'') connected)) = [0]
   \<and> last (map eid (children (updateResults [] (js ''zz'') (updateResults [] (js ''zz'') connected)))) = 1
   \<and> next_eid (updateResults [] (js ''zz'') (updateResults [] (js ''zz'') connected))
       \<noteq> next_eid (updateResults [] (js ''zz'') connected)
   \<and> map eid (children (cached_updateResults [] (js ''zz'') connected)) = [0]
   \<and> map eid (children (cached_updateResults [] (js ''zz'')
                          (cached_updateResults [] (js ''zz'') connected))) = [1]"
  by code_simp


section \<open>\<open>replaceResults\<close>\<close>

lemma render_item_frame: "frame (fst (render_item ex q acc item)) = frame (fst acc)"
proof -
  obtain st l sh where acc: "acc = (st, l, sh)" by (cases acc) auto
  show ?thesis
  proof (cases "matches q item")
    case False
    then show ?thesis by (simp add: render_item_skip)
  next
    case True
    then show ?thesis
      unfolding acc
      by (cases "find (\<lambda>li. data_value li = Some item) ex")
         (simp_all add: render_item_reuse render_item_create frame_def update_element_def)
  qed
qed

lemma loop_frame: "frame (fst (foldl (render_item ex q) acc its)) = frame (fst acc)"
  by (induction its arbitrary: acc) (simp_all add: render_item_frame)

lemma render_pass_frame: "frame (render_pass its q st) = frame st"
proof -
  let ?s = "st\<lparr>item_count := 0\<rparr>"
  obtain st1 l sh where L: "foldl (render_item (options st) q) (?s, None, []) its = (st1, l, sh)"
    by (cases "foldl (render_item (options st) q) (?s, None, []) its") auto
  have "frame st1 = frame ?s" using loop_frame [of "options st" q "(?s, None, [])" its] L by simp
  then show ?thesis unfolding render_pass_unfold [OF L] by (simp add: frame_def)
qed

lemma updateResults_events [simp]: "events (updateResults its q st) = events st"
  unfolding updateResults_alt using frame_fields(1) [OF render_pass_frame, of its q st] by simp

lemma updateResults_hidden [simp]: "hidden (updateResults its q st) = hidden st"
  unfolding updateResults_alt using frame_fields(2) [OF render_pass_frame, of its q st] by simp

lemma without_id_simps [simp]:
  "eid (without_id e) = eid e" "classes (without_id e) = classes e" "role (without_id e) = role e"
  "aria_disabled (without_id e) = aria_disabled e" "aria_selected (without_id e) = aria_selected e"
  "data_value (without_id e) = data_value e" "content (without_id e) = content e"
  "optionSelector (without_id e) = optionSelector e" "sorry_selector (without_id e) = sorry_selector e"
  "activeSelector (without_id e) = activeSelector e"
  "without_id (e\<lparr>el_id := x\<rparr>) = without_id e"
  by (simp_all add: without_id_def optionSelector_def sorry_selector_def activeSelector_def)

lemma identify_Nil: "identify p [] n = ([], n)"
  by simp

lemma identify_Cons:
  "identify p (e # es) n =
     (if optionSelector e \<and> el_id e = None
      then (e\<lparr>el_id := Some (p @ js ''-option-'' @ decimal n)\<rparr> # fst (identify p es (Suc n)),
            snd (identify p es (Suc n)))
      else (e # fst (identify p es n), snd (identify p es n)))"
  by (simp add: case_prod_unfold)

lemma fst_identify_Cons:
  "fst (identify p (e # es) n) =
     (if optionSelector e \<and> el_id e = None
      then e\<lparr>el_id := Some (p @ js ''-option-'' @ decimal n)\<rparr> # fst (identify p es (Suc n))
      else e # fst (identify p es n))"
  by (simp only: identify_Cons fst_conv if_distrib [of fst])

lemma identify_without_id:
  "map without_id (fst (identify p es n)) = map without_id es"
proof (induction es arbitrary: n)
  case Nil
  then show ?case by (simp only: identify_Nil fst_conv)
next
  case (Cons e es)
  show ?case
    unfolding fst_identify_Cons using Cons [of n] Cons [of "Suc n"]
    by (simp del: identify.simps)
qed

lemma identify_sorry:
  "(\<And>e. e \<in> set es \<Longrightarrow> optionSelector e \<Longrightarrow> \<not> sorry_selector e) \<Longrightarrow>
     filter sorry_selector (fst (identify p es n)) = filter sorry_selector es"
proof (induction es arbitrary: n)
  case Nil
  then show ?case by (simp only: identify_Nil fst_conv)
next
  case (Cons e es)
  have IH: "filter sorry_selector (fst (identify p es m)) = filter sorry_selector es" for m
    using Cons by simp
  show ?case
  proof (cases "optionSelector e \<and> el_id e = None")
    case True
    then have "\<not> sorry_selector e" using Cons.prems by simp
    then have "\<not> sorry_selector (e\<lparr>el_id := Some (p @ js ''-option-'' @ decimal n)\<rparr>)"
      by (simp add: sorry_selector_def)
    then show ?thesis
      unfolding fst_identify_Cons using True IH [of "Suc n"] \<open>\<not> sorry_selector e\<close>
      by (simp del: identify.simps)
  next
    case False
    then have c: "(optionSelector e \<and> el_id e = None) = False" by simp
    show ?thesis
      unfolding fst_identify_Cons c if_False using IH [of n] by simp
  qed
qed

lemma identifyOptions_children:
  "children (identifyOptions st)
     = fst (identify (if results_id st = [] then (js ''stimulus-autocomplete'') else results_id st)
             (children st) (uniqOptionId st))"
  by (simp add: identifyOptions_def Let_def case_prod_unfold del: identify.simps)

lemma identifyOptions_fields [simp]:
  "next_eid (identifyOptions st) = next_eid st"
  "item_count (identifyOptions st) = item_count st"
  "events (identifyOptions st) = events st"
  "hidden (identifyOptions st) = hidden st"
  "selectedClasses (identifyOptions st) = selectedClasses st"
  by (simp_all add: identifyOptions_def Let_def case_prod_unfold del: identify.simps)

lemma identifyOptions_without_id:
  "map without_id (children (identifyOptions st)) = map without_id (children st)"
  by (simp only: identifyOptions_children identify_without_id)

lemma map_without_id_filter:
  "(\<And>e. P (without_id e) = P e) \<Longrightarrow> map without_id xs = map without_id ys \<Longrightarrow>
     map without_id (filter P xs) = map without_id (filter P ys)"
proof -
  assume P: "\<And>e. P (without_id e) = P e" and eq: "map without_id xs = map without_id ys"
  have "filter P (map without_id zs) = map without_id (filter P zs)" for zs
    by (induction zs) (auto simp: P)
  then show ?thesis using eq by metis
qed

lemma identifyOptions_options:
  "map without_id (options (identifyOptions st)) = map without_id (options st)"
  unfolding options_def
  by (rule map_without_id_filter) (simp_all add: identifyOptions_without_id)

lemma identifyOptions_member:
  assumes "e' \<in> set (children (identifyOptions st))"
  shows "\<exists>e \<in> set (children st). without_id e = without_id e'"
proof -
  have "without_id e' \<in> set (map without_id (children (identifyOptions st)))"
    using assms by (rule mem_map)
  then have "without_id e' \<in> set (map without_id (children st))"
    by (simp only: identifyOptions_without_id)
  then show ?thesis by auto
qed

lemma open_fields [simp]:
  "children (open st) = children st" "next_eid (open st) = next_eid st"
  "item_count (open st) = item_count st" "hidden (open st) = False"
  "selectedClasses (open st) = selectedClasses st"
  "events (open st) = events st @ (if resultsShown st then [] else [Toggle Open])"
  by (simp_all add: open_def dispatchEvent_def resultsShown_def)

lemma close_fields [simp]:
  "children (close st) = children st" "next_eid (close st) = next_eid st"
  "item_count (close st) = item_count st" "hidden (close st) = True"
  "selectedClasses (close st) = selectedClasses st"
  "events (close st) = events st @ (if resultsShown st then [Toggle Close] else [])"
  by (simp_all add: close_def dispatchEvent_def resultsShown_def)

lemma replaceResults_alt:
  "replaceResults r q st
     = setHeight (open (identifyOptions (updateResults (getUniqueItemList r) q st)))"
  by (simp add: replaceResults_def Let_def to_boolean_def)

lemma well_formed_cong:
  "children a = children b \<Longrightarrow> next_eid a = next_eid b \<Longrightarrow> item_count a = item_count b \<Longrightarrow>
     selectedClasses a = selectedClasses b \<Longrightarrow> well_formed a = well_formed b"
  by (simp add: well_formed_def options_def selectedClassesOrDefault_def)

lemma well_formed_setHeight [simp]: "well_formed (setHeight st) = well_formed st"
  by (rule well_formed_cong) simp_all

lemma well_formed_open [simp]: "well_formed (open st) = well_formed st"
  by (rule well_formed_cong) simp_all

lemma well_formed_close [simp]: "well_formed (close st) = well_formed st"
  by (rule well_formed_cong) simp_all

lemma map_eid_without_id: "map eid (map without_id xs) = map eid xs"
  by (induction xs) auto

lemma well_formed_identifyOptions:
  assumes wf: "well_formed st"
  shows "well_formed (identifyOptions st)"
proof (rule well_formedI)
  let ?i = "identifyOptions st"
  note m = identifyOptions_member [of _ st]
  have "map eid (children ?i) = map eid (map without_id (children ?i))"
    by (simp only: map_eid_without_id)
  also have "\<dots> = map eid (children st)"
    by (simp only: identifyOptions_without_id map_eid_without_id)
  finally show "distinct (map eid (children ?i))" using well_formedD(1) [OF wf] by simp
  show "eid e < next_eid ?i" if e: "e \<in> set (children ?i)" for e
  proof -
    obtain e0 where "e0 \<in> set (children st)" "without_id e0 = without_id e" using m [OF e] by blast
    then show ?thesis using well_formedD(2) [OF wf, of e0] by (metis identifyOptions_fields(1) without_id_simps(1))
  qed
  show "plain_classes (classes e)" if e: "e \<in> set (children ?i)" "optionSelector e" for e
  proof -
    obtain e0 where e0: "e0 \<in> set (children st)" "without_id e0 = without_id e"
      using m [OF e(1)] by blast
    have "optionSelector e0" using e(2) e0(2) by (metis without_id_simps(8))
    then have "plain_classes (classes e0)" using well_formedD(3) [OF wf e0(1)] by simp
    then show ?thesis using e0(2) by (metis without_id_simps(2))
  qed
  show "optionSelector e" if e: "e \<in> set (children ?i)" "activeSelector e" for e
  proof -
    obtain e0 where e0: "e0 \<in> set (children st)" "without_id e0 = without_id e"
      using m [OF e(1)] by blast
    have "activeSelector e0" using e(2) e0(2) by (metis without_id_simps(10))
    then have "optionSelector e0" using well_formedD(4) [OF wf e0(1)] by simp
    then show ?thesis using e0(2) by (metis without_id_simps(8))
  qed
  show "0 < item_count ?i" if "options ?i \<noteq> []"
  proof -
    have "length (map without_id (options ?i)) = length (map without_id (options st))"
      by (simp only: identifyOptions_options)
    then have "options st \<noteq> []" using that by auto
    then show ?thesis using well_formedD(5) [OF wf] by simp
  qed
  show "plain_classes (selectedClassesOrDefault ?i)"
    using well_formedD(6) [OF wf] by (simp add: selectedClassesOrDefault_cong [of ?i st])
qed

lemma well_formed_replaceResults:
  "well_formed st \<Longrightarrow> well_formed (replaceResults r q st)"
  unfolding replaceResults_alt
  by (simp add: well_formed_identifyOptions well_formed_updateResults)

lemma render_pass_no_new:
  assumes "\<And>item. item \<in> set its \<Longrightarrow> matches q item \<Longrightarrow> option_for st item \<noteq> None"
  shows "next_eid (render_pass its q st) = next_eid st"
proof -
  let ?s = "st\<lparr>item_count := 0\<rparr>"
  obtain st1 l sh where L: "foldl (render_item (options st) q) (?s, None, []) its = (st1, l, sh)"
    by (cases "foldl (render_item (options st) q) (?s, None, []) its") auto
  have "map erase (children (fst (foldl (render_item (options st) q) (?s, None, []) its)))
          = map erase (children ?s)
        \<and> next_eid (fst (foldl (render_item (options st) q) (?s, None, []) its)) = next_eid ?s"
    by (rule loop_all_found) (use assms in \<open>simp add: option_for_def\<close>)
  then have "next_eid st1 = next_eid st" unfolding L by simp
  then show ?thesis unfolding render_pass_unfold [OF L] by simp
qed

lemma sorry_messages_replaceResults:
  assumes wf: "well_formed st"
  shows "sorry_messages (replaceResults r q st)
           = sorry_messages (updateResults (getUniqueItemList r) q st)"
proof -
  let ?u = "updateResults (getUniqueItemList r) q st"
  have wfu: "well_formed ?u" using wf by (rule well_formed_updateResults)
  have "filter sorry_selector (children (identifyOptions ?u)) = filter sorry_selector (children ?u)"
    unfolding identifyOptions_children
    by (rule identify_sorry) (use option_not_sorry [OF wfu] in blast)
  then show ?thesis by (simp add: sorry_messages_def replaceResults_alt)
qed

lemma options_replaceResults:
  "map without_id (options (replaceResults r q st))
     = map without_id (options (updateResults (getUniqueItemList r) q st))"
proof -
  have "options (replaceResults r q st)
          = options (identifyOptions (updateResults (getUniqueItemList r) q st))"
    by (simp add: replaceResults_alt options_def)
  then show ?thesis by (simp only: identifyOptions_options)
qed


section \<open>What \<open>replaceResults\<close> shows\<close>

text \<open>
  C10. \<open>replaceResults\<close> always takes the branch that opens the list: the value of
  \<open>!!this.options\<close> is \<open>true\<close> for every array, so whatever the response holds the
  result is that of \<open>open\<close> followed by \<open>setHeight\<close>, the list is shown afterwards, and the
  only event the call dispatches is the toggle to open (when the list was closed); no
  toggle to close is dispatched.
\<close>

theorem replaceResults_always_opens:
  "replaceResults r q st
     = setHeight (open (identifyOptions (updateResults (getUniqueItemList r) q st)))
   \<and> to_boolean (options (identifyOptions (updateResults (getUniqueItemList r) q st)))
   \<and> resultsShown (replaceResults r q st)
   \<and> events (replaceResults r q st) = events st @ (if resultsShown st then [] else [Toggle Open])"
  by (simp add: replaceResults_alt to_boolean_def resultsShown_def)

theorem replaceResults_always_opens_witness:
  "filter (matches (js ''zz'')) (getUniqueItemList no_items) = []
   \<and> \<not> resultsShown connected
   \<and> resultsShown (replaceResults no_items (js ''zz'') connected)
   \<and> events (replaceResults no_items (js ''zz'') connected) = [Toggle Open]
   \<and> map content (children (replaceResults no_items (js ''zz'') connected))
       = [[Text (js ''No results found for '' @ [0x22] @ js ''zz'' @ [0x22])]]"
proof -
  have a: "filter (matches (js ''zz'')) (getUniqueItemList no_items) = []" by code_simp
  have b: "\<not> resultsShown connected" by code_simp
  have c: "events connected = []" by code_simp
  have d: "map content (children (replaceResults no_items (js ''zz'') connected))
       = [[Text (js ''No results found for '' @ [0x22] @ js ''zz'' @ [0x22])]]" by code_simp
  note t = replaceResults_always_opens [of no_items "(js ''zz'')" connected, THEN conjunct2, THEN conjunct2]
  have e: "resultsShown (replaceResults no_items (js ''zz'') connected)" using t by (rule conjunct1)
  have f: "events (replaceResults no_items (js ''zz'') connected) = [Toggle Open]"
    using t [THEN conjunct2] b c by simp
  show ?thesis using a b d e f by (simp only: simp_thms)
qed

text \<open>
  C2, as amended. Let the state be well formed. When the merged list renders no item and
  the list holds no placeholder yet, \<open>replaceResults\<close> leaves exactly one placeholder, the
  disabled \<open>li\<close> with the text \<open>No results found for "query"\<close>, no option, and the list
  open. When at least one item renders and the list held at most one placeholder, no
  placeholder is left and the list holds options.
\<close>

theorem replaceResults_placeholder:
  assumes "well_formed st"
  shows "(filter (matches q) (getUniqueItemList r) = [] \<and> sorry_messages st = [] \<longrightarrow>
            sorry_messages (replaceResults r q st) = [sorry_li (next_eid st) q]
            \<and> options (replaceResults r q st) = []
            \<and> resultsShown (replaceResults r q st))
         \<and> (filter (matches q) (getUniqueItemList r) \<noteq> [] \<and> length (sorry_messages st) \<le> 1 \<longrightarrow>
            sorry_messages (replaceResults r q st) = []
            \<and> options (replaceResults r q st) \<noteq> [])"
proof -
  let ?its = "getUniqueItemList r"
  let ?rp = "render_pass ?its q st"
  let ?u = "updateResults ?its q st"
  note d = well_formedD(1) [OF assms] and b = well_formedD(2) [OF assms]
  have wfrp: "well_formed ?rp" using assms by (rule well_formed_render_pass)
  have len: "length (sorry_messages ?rp) = length (sorry_messages st)"
    using sorry_messages_render_pass [OF assms, of ?its q] by (metis length_map)
  have cnt: "item_count ?rp = length (filter (matches q) ?its)"
    using render_pass_facts(1) [OF d b, of ?its q] .
  have opts: "options (replaceResults r q st) = [] \<longleftrightarrow> options ?u = []"
    using options_replaceResults [of r q st] by (metis map_is_Nil_conv)
  have shown: "resultsShown (replaceResults r q st)"
    by (simp add: replaceResults_alt resultsShown_def)
  have zero: "sorry_messages (replaceResults r q st) = [sorry_li (next_eid st) q]
            \<and> options (replaceResults r q st) = []"
    if z: "filter (matches q) ?its = []" and n: "sorry_messages st = []"
  proof -
    have u: "?u = showSorryMessage q ?rp" using cnt z by (simp add: updateResults_alt)
    have "\<And>item. item \<in> set ?its \<Longrightarrow> matches q item \<Longrightarrow> option_for st item \<noteq> None"
      using z by (auto simp: filter_empty_conv)
    then have ne: "next_eid ?rp = next_eid st" by (rule render_pass_no_new)
    have "sorry_messages ?rp = []" using len n by simp
    then have "sorry_messages ?u = [sorry_li (next_eid st) q]"
      unfolding u by (simp add: sorry_messages_def ne)
    then have s: "sorry_messages (replaceResults r q st) = [sorry_li (next_eid st) q]"
      by (simp add: sorry_messages_replaceResults [OF assms])
    have "options ?u = []" using options_nonempty_updateResults [OF assms, of ?its q] z by simp
    then show ?thesis using s opts by simp
  qed
  have some: "sorry_messages (replaceResults r q st) = [] \<and> options (replaceResults r q st) \<noteq> []"
    if z: "filter (matches q) ?its \<noteq> []" and n: "length (sorry_messages st) \<le> 1"
  proof -
    have "item_count ?rp \<noteq> 0" using cnt z by simp
    then have u: "?u = hideSorryMessage ?rp" by (simp add: updateResults_alt)
    have "length (sorry_messages ?rp) \<le> 1" using len n by simp
    then have "tl (sorry_messages ?rp) = []" by (cases "sorry_messages ?rp") auto
    then have "sorry_messages ?u = []"
      unfolding u hideSorryMessage_sorry [OF well_formedD(1) [OF wfrp]] by simp
    then have s: "sorry_messages (replaceResults r q st) = []"
      by (simp add: sorry_messages_replaceResults [OF assms])
    have "options ?u \<noteq> []" using options_nonempty_updateResults [OF assms, of ?its q] z by simp
    then show ?thesis using s opts by simp
  qed
  show ?thesis using zero some shown by blast
qed

theorem replaceResults_placeholder_witness:
  "well_formed connected
   \<and> filter (matches (js ''zz'')) (getUniqueItemList three_names) = []
   \<and> sorry_messages connected = []
   \<and> sorry_messages (replaceResults three_names (js ''zz'') connected) = [sorry_li 0 (js ''zz'')]
   \<and> options (replaceResults three_names (js ''zz'') connected) = []
   \<and> filter (matches (js ''jo'')) (getUniqueItemList three_names) \<noteq> []
   \<and> length (sorry_messages (replaceResults three_names (js ''zz'') connected)) \<le> 1
   \<and> well_formed (replaceResults three_names (js ''zz'') connected)
   \<and> sorry_messages (replaceResults three_names (js ''jo'') (replaceResults three_names (js ''zz'') connected)) = []"
proof -
  have wf: "well_formed connected" by code_simp
  have a: "filter (matches (js ''zz'')) (getUniqueItemList three_names) = []" by code_simp
  have b: "sorry_messages connected = []" by code_simp
  have c: "next_eid connected = 0" by code_simp
  have d: "filter (matches (js ''jo'')) (getUniqueItemList three_names) \<noteq> []" by code_simp
  have wf2: "well_formed (replaceResults three_names (js ''zz'') connected)"
    using wf by (rule well_formed_replaceResults)
  note one = replaceResults_placeholder [OF wf, of "(js ''zz'')" three_names]
  have e: "sorry_messages (replaceResults three_names (js ''zz'') connected) = [sorry_li 0 (js ''zz'')]"
    "options (replaceResults three_names (js ''zz'') connected) = []"
    using one a b c by simp_all
  note two = replaceResults_placeholder [OF wf2, of "(js ''jo'')" three_names]
  have f: "sorry_messages (replaceResults three_names (js ''jo'') (replaceResults three_names (js ''zz'') connected)) = []"
    using two d e(1) by simp
  show ?thesis using wf a b d e f wf2 by simp
qed

text \<open>
  Where C2 as stated fails: a response without items, rendered into the closed, empty
  list of a controller that has just connected, leaves the list open.
\<close>

theorem replaceResults_open_counterexample:
  "hidden connected
   \<and> children connected = []
   \<and> filter (matches (js ''zz'')) (getUniqueItemList no_items) = []
   \<and> hidden (replaceResults no_items (js ''zz'') connected) = False
   \<and> length (sorry_messages (replaceResults no_items (js ''zz'') connected)) = 1"
  by code_simp

text \<open>
  The hypothesis of the amended C2 that no placeholder is in the list yet is needed in
  \<open>src/src/autocomplete.js\<close>: its \<open>showSorryMessage\<close> appends without removing, so two
  empty responses in a row leave two placeholders, and a response with items then removes
  only the first. The cache-backed build removes the old placeholder first and keeps one.
\<close>

lemma placeholders_accumulate:
  "length (sorry_messages (replaceResults no_items (js ''zz'') (replaceResults no_items (js ''zz'') connected))) = 2
   \<and> length (sorry_messages (replaceResults three_names (js ''jo'')
        (replaceResults no_items (js ''zz'') (replaceResults no_items (js ''zz'') connected)))) = 1
   \<and> length (sorry_messages (cached_showSorryMessage (js ''zz'') (cached_showSorryMessage (js ''zz'') connected))) = 1"
  by code_simp


section \<open>Selection\<close>

lemma set_classList_add: "set (classList_add cs xs) = set cs \<union> set xs"
proof -
  have "set (foldl (\<lambda>acc c. if c \<in> set acc then acc else acc @ [c]) cs xs) = set cs \<union> set xs"
    by (induction xs arbitrary: cs) auto
  then show ?thesis by (simp add: classList_add_def)
qed

lemma set_classList_remove: "set (classList_remove cs xs) = set cs - set xs"
  by (auto simp: classList_remove_def)

lemma plain_classes_add:
  "plain_classes cs \<Longrightarrow> plain_classes xs \<Longrightarrow> plain_classes (classList_add cs xs)"
  by (simp add: plain_classes_def set_classList_add)

lemma plain_classes_remove: "plain_classes cs \<Longrightarrow> plain_classes (classList_remove cs xs)"
  by (simp add: plain_classes_def set_classList_remove)

lemma deselected_simps [simp]:
  "eid (deselected cs e) = eid e" "optionSelector (deselected cs e) = optionSelector e"
  "\<not> activeSelector (deselected cs e)" "el_id (deselected cs e) = el_id e"
  "classes (deselected cs e) = classList_remove (classes e) cs"
  by (simp_all add: deselected_def optionSelector_def activeSelector_def)

lemma marked_simps [simp]:
  "eid (marked cs e) = eid e" "optionSelector (marked cs e) = optionSelector e"
  "activeSelector (marked cs e)" "el_id (marked cs e) = el_id e"
  "classes (marked cs e) = classList_add (classes e) cs"
  by (simp_all add: marked_def optionSelector_def activeSelector_def)

lemma update_element_fields [simp]:
  "children (update_element i f st) = map (\<lambda>e. if eid e = i then f e else e) (children st)"
  "next_eid (update_element i f st) = next_eid st"
  "item_count (update_element i f st) = item_count st"
  "selectedClasses (update_element i f st) = selectedClasses st"
  "events (update_element i f st) = events st"
  "hidden (update_element i f st) = hidden st"
  by (simp_all add: update_element_def)

lemma selectedClassesOrDefault_update [simp]:
  "selectedClassesOrDefault (update_element i f st) = selectedClassesOrDefault st"
  by (simp add: selectedClassesOrDefault_def)

lemma select_alt:
  "select t st =
     (let st1 = clear_previous st;
          live = (case find (\<lambda>e. eid e = eid t) (children st1) of Some e \<Rightarrow> e | None \<Rightarrow> t)
      in if item_count st1 > 0 \<and> js ''disabled'' \<notin> set (classes live)
         then (update_element (eid t) (marked (selectedClassesOrDefault st1)) st1)
                \<lparr>activedescendant := Some (case el_id live of Some i \<Rightarrow> i | None \<Rightarrow> [])\<rparr>
         else st1)"
  unfolding select_def clear_previous_def deselected_def [abs_def] marked_def [abs_def]
  by (rule refl)

lemma clear_previous_fields [simp]:
  "next_eid (clear_previous st) = next_eid st"
  "item_count (clear_previous st) = item_count st"
  "selectedClasses (clear_previous st) = selectedClasses st"
  "events (clear_previous st) = events st"
  "hidden (clear_previous st) = hidden st"
  "map eid (children (clear_previous st)) = map eid (children st)"
  by (simp_all add: clear_previous_def comp_def split: option.splits)

lemma clear_previous_children:
  "\<exists>g. children (clear_previous st) = map g (children st)
       \<and> (\<forall>e. g e = e \<or> g e = deselected (selectedClassesOrDefault st) e)
       \<and> (\<forall>e p. selectedOption st = Some p \<longrightarrow> eid e = eid p \<longrightarrow>
              g e = deselected (selectedClassesOrDefault st) e)"
proof (cases "selectedOption st")
  case None
  then have "children (clear_previous st) = map (\<lambda>e. e) (children st)"
    by (simp add: clear_previous_def)
  then show ?thesis using None by (intro exI [of _ "\<lambda>e. e"]) simp
next
  case (Some p)
  let ?g = "\<lambda>e. if eid e = eid p then deselected (selectedClassesOrDefault st) e else e"
  have "children (clear_previous st) = map ?g (children st)"
    using Some by (simp add: clear_previous_def)
  then show ?thesis using Some by (intro exI [of _ ?g]) simp
qed

lemma clear_previous_none_active:
  assumes "selected_count st \<le> 1"
  shows "filter activeSelector (children (clear_previous st)) = []"
proof -
  obtain g where g: "children (clear_previous st) = map g (children st)"
    "\<And>e. g e = e \<or> g e = deselected (selectedClassesOrDefault st) e"
    "\<And>e p. selectedOption st = Some p \<Longrightarrow> eid e = eid p \<Longrightarrow>
              g e = deselected (selectedClassesOrDefault st) e"
    using clear_previous_children [of st] by blast
  have "\<not> activeSelector (g e)" if e: "e \<in> set (children st)" for e
  proof (cases "activeSelector e")
    case False
    then show ?thesis using g(2) [of e] by (metis deselected_simps(3))
  next
    case True
    then have "e \<in> set (filter activeSelector (children st))" using e by simp
    moreover have "length (filter activeSelector (children st)) \<le> 1"
      using assms by (simp add: selected_count_def)
    ultimately have f: "filter activeSelector (children st) = [e]"
      by (cases "filter activeSelector (children st)") auto
    then have "selectedOption st = Some e"
      by (simp add: selectedOption_def find_filter_conv)
    then have "g e = deselected (selectedClassesOrDefault st) e" using g(3) by blast
    then show ?thesis by (metis deselected_simps(3))
  qed
  then show ?thesis unfolding g(1) by (simp add: filter_empty_conv)
qed

lemma mark_one:
  assumes "distinct (map eid cs)" "filter activeSelector cs = []"
  shows "length (filter activeSelector (map (\<lambda>e. if eid e = i then marked c e else e) cs)) \<le> 1"
  using assms
proof (induction cs)
  case Nil
  then show ?case by simp
next
  case (Cons e cs)
  have na: "\<not> activeSelector e" "filter activeSelector cs = []"
    using Cons.prems(2) by (auto split: if_splits)
  show ?case
  proof (cases "eid e = i")
    case True
    then have "\<forall>x \<in> set cs. eid x \<noteq> i" using Cons.prems(1) by (auto simp: image_iff)
    then have "map (\<lambda>e. if eid e = i then marked c e else e) cs = cs"
      by (simp add: map_idI)
    then show ?thesis using True na by simp
  next
    case False
    then show ?thesis using Cons na by simp
  qed
qed

lemma mark_target:
  assumes "distinct (map eid cs)" "filter activeSelector cs = []" "t \<in> set cs" "eid t = i"
  shows "map eid (filter activeSelector (map (\<lambda>e. if eid e = i then marked c e else e) cs)) = [i]"
  using assms
proof (induction cs)
  case Nil
  then show ?case by simp
next
  case (Cons e cs)
  have na: "\<not> activeSelector e" "filter activeSelector cs = []"
    using Cons.prems(2) by (auto split: if_splits)
  show ?case
  proof (cases "eid e = i")
    case True
    then have "\<forall>x \<in> set cs. eid x \<noteq> i" using Cons.prems(1) by (auto simp: image_iff)
    then have "map (\<lambda>e. if eid e = i then marked c e else e) cs = cs"
      by (simp add: map_idI)
    then show ?thesis using True na by simp
  next
    case False
    then have "t \<in> set cs" using Cons.prems(3,4) by auto
    then show ?thesis using Cons False na by simp
  qed
qed

lemma clear_previous_member:
  assumes "e' \<in> set (children (clear_previous st))"
  shows "\<exists>e \<in> set (children st). eid e' = eid e \<and> optionSelector e' = optionSelector e
           \<and> (e' = e \<or> e' = deselected (selectedClassesOrDefault st) e)"
proof -
  obtain g where g: "children (clear_previous st) = map g (children st)"
    "\<And>e. g e = e \<or> g e = deselected (selectedClassesOrDefault st) e"
    using clear_previous_children [of st] by blast
  from assms obtain e where e: "e \<in> set (children st)" "e' = g e" unfolding g(1) by auto
  have "eid (g e) = eid e \<and> optionSelector (g e) = optionSelector e"
    using g(2) [of e] by (metis deselected_simps(1) deselected_simps(2))
  then show ?thesis using e g(2) [of e] by metis
qed

lemma selectedClassesOrDefault_clear [simp]:
  "selectedClassesOrDefault (clear_previous st) = selectedClassesOrDefault st"
  by (simp add: selectedClassesOrDefault_def)

lemma options_nonempty_eids:
  "options a \<noteq> [] \<longleftrightarrow> (\<exists>e \<in> set (children a). optionSelector e)"
  by (simp add: options_def filter_empty_conv)

lemma well_formed_clear_previous:
  assumes wf: "well_formed st"
  shows "well_formed (clear_previous st)"
proof (rule well_formedI)
  let ?c = "clear_previous st"
  note m = clear_previous_member [of _ st]
  show "distinct (map eid (children ?c))" using well_formedD(1) [OF wf] by simp
  show "eid e < next_eid ?c" if e: "e \<in> set (children ?c)" for e
    using m [OF e] well_formedD(2) [OF wf] by auto
  show "plain_classes (classes e)" if e: "e \<in> set (children ?c)" "optionSelector e" for e
  proof -
    obtain e0 where e0: "e0 \<in> set (children st)" "optionSelector e = optionSelector e0"
      "e = e0 \<or> e = deselected (selectedClassesOrDefault st) e0" using m [OF e(1)] by blast
    then have "plain_classes (classes e0)" using well_formedD(3) [OF wf e0(1)] e(2) by simp
    then show ?thesis using e0(3) by (auto simp: plain_classes_remove)
  qed
  show "optionSelector e" if e: "e \<in> set (children ?c)" "activeSelector e" for e
  proof -
    obtain e0 where e0: "e0 \<in> set (children st)" "optionSelector e = optionSelector e0"
      "e = e0 \<or> e = deselected (selectedClassesOrDefault st) e0" using m [OF e(1)] by blast
    then have "e = e0" using e(2) by (metis deselected_simps(3))
    then show ?thesis using well_formedD(4) [OF wf e0(1)] e(2) by simp
  qed
  show "0 < item_count ?c" if "options ?c \<noteq> []"
  proof -
    from that obtain e where e: "e \<in> set (children ?c)" "optionSelector e"
      unfolding options_nonempty_eids by blast
    then obtain e0 where "e0 \<in> set (children st)" "optionSelector e0" using m [OF e(1)] by blast
    then have "options st \<noteq> []" unfolding options_nonempty_eids by blast
    then show ?thesis using well_formedD(5) [OF wf] by simp
  qed
  show "plain_classes (selectedClassesOrDefault ?c)" using well_formedD(6) [OF wf] by simp
qed

lemma well_formed_mark:
  assumes wf: "well_formed st"
    and t: "\<And>e. e \<in> set (children st) \<Longrightarrow> eid e = i \<Longrightarrow> optionSelector e"
  shows "well_formed (update_element i (marked (selectedClassesOrDefault st)) st)"
proof (rule well_formedI)
  let ?h = "\<lambda>e. if eid e = i then marked (selectedClassesOrDefault st) e else e"
  let ?m = "update_element i (marked (selectedClassesOrDefault st)) st"
  have ch: "children ?m = map ?h (children st)" by simp
  have eids: "map eid (map ?h xs) = map eid xs" for xs by (induction xs) auto
  have m: "\<exists>e \<in> set (children st). e' = ?h e" if "e' \<in> set (children ?m)" for e'
    using that unfolding ch by auto
  show "distinct (map eid (children ?m))" unfolding ch eids by (rule well_formedD(1) [OF wf])
  show "eid e < next_eid ?m" if e: "e \<in> set (children ?m)" for e
  proof -
    obtain e0 where e0: "e0 \<in> set (children st)" "e = ?h e0" using m [OF e] by blast
    have "eid (?h e0) = eid e0" by simp
    then show ?thesis using well_formedD(2) [OF wf e0(1)] e0(2) by simp
  qed
  show "plain_classes (classes e)" if e: "e \<in> set (children ?m)" "optionSelector e" for e
  proof -
    obtain e0 where e0: "e0 \<in> set (children st)" "e = ?h e0" using m [OF e(1)] by blast
    have "optionSelector (?h e0) = optionSelector e0" by simp
    then have "plain_classes (classes e0)" using well_formedD(3) [OF wf e0(1)] e(2) e0(2) by simp
    then have "plain_classes (classes (?h e0))"
      using well_formedD(6) [OF wf] by (simp add: plain_classes_add)
    then show ?thesis using e0(2) by simp
  qed
  show "optionSelector e" if e: "e \<in> set (children ?m)" "activeSelector e" for e
  proof -
    obtain e0 where e0: "e0 \<in> set (children st)" "e = ?h e0" using m [OF e(1)] by blast
    show ?thesis
    proof (cases "eid e0 = i")
      case True
      then have "optionSelector e0" using t [OF e0(1)] by simp
      then show ?thesis using e0(2) True by simp
    next
      case False
      then have "e = e0" using e0(2) by simp
      then show ?thesis using well_formedD(4) [OF wf e0(1)] e(2) by simp
    qed
  qed
  show "0 < item_count ?m" if "options ?m \<noteq> []"
  proof -
    from that obtain e where e: "e \<in> set (children ?m)" "optionSelector e"
      unfolding options_nonempty_eids by blast
    obtain e0 where e0: "e0 \<in> set (children st)" "e = ?h e0" using m [OF e(1)] by blast
    have "optionSelector (?h e0) = optionSelector e0" by simp
    then have "optionSelector e0" using e(2) e0(2) by simp
    then have "options st \<noteq> []" unfolding options_nonempty_eids using e0(1) by blast
    then show ?thesis using well_formedD(5) [OF wf] by simp
  qed
  show "plain_classes (selectedClassesOrDefault ?m)" using well_formedD(6) [OF wf] by simp
qed

lemma well_formed_activedescendant [simp]:
  "well_formed (st\<lparr>activedescendant := a\<rparr>) = well_formed st"
  by (rule well_formed_cong) simp_all

lemma selected_count_activedescendant [simp]:
  "selected_count (st\<lparr>activedescendant := a\<rparr>) = selected_count st"
  by (simp add: selected_count_def)

lemma well_formed_select:
  assumes wf: "well_formed st" and t: "t \<in> set (options st)"
  shows "well_formed (select t st)"
proof -
  let ?c = "clear_previous st"
  have wfc: "well_formed ?c" using wf by (rule well_formed_clear_previous)
  have opt: "optionSelector e" if e: "e \<in> set (children ?c)" "eid e = eid t" for e
  proof -
    obtain e0 where e0: "e0 \<in> set (children st)" "eid e = eid e0" "optionSelector e = optionSelector e0"
      using clear_previous_member [OF e(1)] by blast
    have "t \<in> set (children st)" "optionSelector t" using t by (simp_all add: options_def)
    then have "e0 = t" using distinct_eid_eq [OF well_formedD(1) [OF wf] e0(1)] e0(2) e(2) by simp
    then show ?thesis using e0(3) \<open>optionSelector t\<close> by simp
  qed
  have "well_formed (update_element (eid t) (marked (selectedClassesOrDefault ?c)) ?c)"
    using wfc opt by (rule well_formed_mark)
  then show ?thesis using wfc unfolding select_alt by (simp add: Let_def)
qed

lemma selected_count_select:
  assumes d: "distinct (map eid (children st))" and c: "selected_count st \<le> 1"
  shows "selected_count (select t st) \<le> 1"
proof -
  let ?c = "clear_previous st"
  have none: "filter activeSelector (children ?c) = []" using c by (rule clear_previous_none_active)
  have dc: "distinct (map eid (children ?c))" using d by simp
  have "selected_count (update_element (eid t) (marked (selectedClassesOrDefault ?c)) ?c) \<le> 1"
    unfolding selected_count_def update_element_fields using dc none by (rule mark_one)
  moreover have "selected_count ?c \<le> 1" using none by (simp add: selected_count_def)
  ultimately show ?thesis unfolding select_alt by (simp add: Let_def)
qed

lemma select_option:
  assumes wf: "well_formed st" and c: "selected_count st \<le> 1" and t: "t \<in> set (options st)"
  shows "selected_ids (select t st) = [eid t]"
proof -
  let ?c = "clear_previous st"
  note d = well_formedD(1) [OF wf]
  have tt: "t \<in> set (children st)" "optionSelector t" using t by (simp_all add: options_def)
  have "options st \<noteq> []" using t by auto
  then have ic: "0 < item_count ?c" using well_formedD(5) [OF wf] by simp
  have none: "filter activeSelector (children ?c) = []" using c by (rule clear_previous_none_active)
  have dc: "distinct (map eid (children ?c))" using d by simp
  have "eid t \<in> set (map eid (children st))" using tt(1) by simp
  then have "eid t \<in> set (map eid (children ?c))" by (simp only: clear_previous_fields(6))
  then have "eid t \<in> eid ` set (children ?c)" by (simp only: set_map)
  then obtain x where x: "x \<in> set (children ?c)" "eid x = eid t" by (metis imageE)
  have live: "js ''disabled'' \<notin> set (classes e)" if e: "e \<in> set (children ?c)" "eid e = eid t" for e
  proof -
    obtain e0 where e0: "e0 \<in> set (children st)" "eid e = eid e0"
      "e = e0 \<or> e = deselected (selectedClassesOrDefault st) e0"
      using clear_previous_member [OF e(1)] by blast
    have "eid e0 = eid t" using e0(2) e(2) by simp
    then have "e0 = t" by (rule distinct_eid_eq [OF d e0(1) tt(1)])
    then have pc: "plain_classes (classes e0)" using well_formedD(3) [OF wf tt(1) tt(2)] by simp
    from e0(3) have "plain_classes (classes e)"
    proof
      assume "e = e0"
      then show ?thesis using pc by simp
    next
      assume "e = deselected (selectedClassesOrDefault st) e0"
      then have "classes e = classList_remove (classes e0) (selectedClassesOrDefault st)"
        by (simp only: deselected_simps(5))
      then show ?thesis using pc by (simp only: plain_classes_remove)
    qed
    then show ?thesis by (simp add: plain_classes_def)
  qed
  obtain y where y: "find (\<lambda>e. eid e = eid t) (children ?c) = Some y"
    using x by (cases "find (\<lambda>e. eid e = eid t) (children ?c)") (auto simp: find_None_iff)
  then have "y \<in> set (children ?c)" "eid y = eid t"
    by (auto simp: find_Some_iff dest: nth_mem)
  then have "js ''disabled'' \<notin> set (classes y)" by (rule live)
  then have s: "select t st =
      (update_element (eid t) (marked (selectedClassesOrDefault ?c)) ?c)
        \<lparr>activedescendant := Some (case el_id y of Some i \<Rightarrow> i | None \<Rightarrow> [])\<rparr>"
    unfolding select_alt using ic y by (simp add: Let_def)
  show ?thesis
    unfolding s selected_ids_def
    using mark_target [OF dc none x, of "selectedClassesOrDefault st"] by simp
qed

section \<open>The arrow keys\<close>

lemma at_simps:
  "xs \<noteq> [] \<Longrightarrow> at xs 0 = Some (hd xs)"
  "xs \<noteq> [] \<Longrightarrow> at xs (int (length xs) - 1) = Some (last xs)"
  "at xs (int (length xs)) = None"
  "i < 0 \<Longrightarrow> at xs i = None"
  by (auto simp: at_def hd_conv_nth last_conv_nth nat_diff_distrib')

lemma at_member: "at xs i = Some x \<Longrightarrow> x \<in> set xs"
  by (auto simp: at_def split: if_splits)

lemma index_of_eid_last:
  "distinct (map eid xs) \<Longrightarrow> xs \<noteq> [] \<Longrightarrow>
     index_of_eid xs (eid (last xs)) n = int n + int (length xs) - 1"
proof (induction xs arbitrary: n)
  case Nil
  then show ?case by simp
next
  case (Cons x xs)
  show ?case
  proof (cases "xs = []")
    case True
    then show ?thesis by simp
  next
    case False
    then have "last xs \<in> set xs" by simp
    then have "eid x \<noteq> eid (last xs)" using Cons.prems(1) by (auto simp: image_iff)
    then show ?thesis using Cons False by simp
  qed
qed

lemma sibling_in_options: "sibling next st = Some x \<Longrightarrow> x \<in> set (options st)"
  by (auto simp: sibling_def Let_def dest: at_member split: option.splits if_splits)

lemma sibling_down_none:
  "selectedOption st = None \<Longrightarrow> options st \<noteq> [] \<Longrightarrow> sibling True st = Some (hd (options st))"
  by (simp add: sibling_def Let_def elements_indexOf_def at_simps)

lemma sibling_up_none:
  "selectedOption st = None \<Longrightarrow> options st \<noteq> [] \<Longrightarrow> sibling False st = Some (last (options st))"
  by (simp add: sibling_def Let_def elements_indexOf_def at_simps)

lemma sibling_down_last:
  assumes "distinct (map eid (children st))" "options st \<noteq> []"
    and "selectedOption st = Some s" "eid s = eid (last (options st))"
  shows "sibling True st = Some (hd (options st))"
proof -
  have "distinct (map eid (options st))"
    using assms(1) unfolding options_def by (rule distinct_map_filter)
  then have "index_of_eid (options st) (eid s) 0 = int (length (options st)) - 1"
    using index_of_eid_last [of "options st" 0] assms(2,4) by simp
  then show ?thesis
    using assms(2,3) by (simp add: sibling_def Let_def elements_indexOf_def at_simps)
qed

lemma arrow_selects:
  assumes "well_formed st" "selected_count st \<le> 1" "sibling next st = Some x"
  shows "selected_ids (select x st) = [eid x]" "well_formed (select x st)"
  using assms sibling_in_options [of "next" st x]
  by (simp_all add: select_option well_formed_select)

lemma well_formed_arrow:
  assumes "well_formed st"
  shows "well_formed (onArrowDownKeydown st)" "well_formed (onArrowUpKeydown st)"
  using assms sibling_in_options
  by (auto simp: onArrowDownKeydown_def onArrowUpKeydown_def well_formed_select split: option.splits)

lemma selected_count_arrow:
  assumes "well_formed st" "selected_count st \<le> 1"
  shows "selected_count (onArrowDownKeydown st) \<le> 1" "selected_count (onArrowUpKeydown st) \<le> 1"
  using assms(2) selected_count_select [OF well_formedD(1) [OF assms(1)] assms(2)]
  by (simp_all add: onArrowDownKeydown_def onArrowUpKeydown_def split: option.splits)

lemma selected_enabled:
  assumes wf: "well_formed st" and e: "e \<in> set (children st)" "activeSelector e"
  shows "optionSelector e \<and> js ''disabled'' \<notin> set (classes e)"
proof -
  have o: "optionSelector e" using well_formedD(4) [OF wf e] .
  then have "plain_classes (classes e)" using well_formedD(3) [OF wf e(1)] by simp
  then show ?thesis using o by (simp add: plain_classes_def)
qed

text \<open>
  C6. In a well-formed state with at most one element marked selected: ArrowDown with no
  selection leaves exactly the first option selected; ArrowDown with the last option
  selected leaves exactly the first option selected; ArrowUp with no selection leaves
  exactly the last option selected; and after either key every selected element is an
  option without \<open>aria-disabled\<close> and without the class \<open>disabled\<close>.
\<close>

theorem arrow_keys_select_enabled_options:
  assumes "well_formed st" and "selected_count st \<le> 1"
  shows "(selectedOption st = None \<and> options st \<noteq> [] \<longrightarrow>
            selected_ids (onArrowDownKeydown st) = [eid (hd (options st))])
         \<and> (options st \<noteq> [] \<and> map_option eid (selectedOption st) = Some (eid (last (options st))) \<longrightarrow>
            selected_ids (onArrowDownKeydown st) = [eid (hd (options st))])
         \<and> (selectedOption st = None \<and> options st \<noteq> [] \<longrightarrow>
            selected_ids (onArrowUpKeydown st) = [eid (last (options st))])
         \<and> (\<forall>e \<in> set (children (onArrowDownKeydown st)). activeSelector e \<longrightarrow>
               optionSelector e \<and> aria_disabled e = None \<and> js ''disabled'' \<notin> set (classes e))
         \<and> (\<forall>e \<in> set (children (onArrowUpKeydown st)). activeSelector e \<longrightarrow>
               optionSelector e \<and> aria_disabled e = None \<and> js ''disabled'' \<notin> set (classes e))"
proof -
  note d = well_formedD(1) [OF assms(1)]
  have A: "selected_ids (onArrowDownKeydown st) = [eid (hd (options st))]"
    if "selectedOption st = None" "options st \<noteq> []"
    using arrow_selects(1) [OF assms sibling_down_none [OF that]]
    by (simp add: onArrowDownKeydown_def sibling_down_none [OF that])
  have B: "selected_ids (onArrowDownKeydown st) = [eid (hd (options st))]"
    if o: "options st \<noteq> []" and s: "map_option eid (selectedOption st) = Some (eid (last (options st)))"
  proof -
    from s obtain p where p: "selectedOption st = Some p" "eid p = eid (last (options st))"
      by (cases "selectedOption st") auto
    note sd = sibling_down_last [OF d o p]
    show ?thesis
      using arrow_selects(1) [OF assms sd] by (simp add: onArrowDownKeydown_def sd)
  qed
  have C: "selected_ids (onArrowUpKeydown st) = [eid (last (options st))]"
    if "selectedOption st = None" "options st \<noteq> []"
    using arrow_selects(1) [OF assms sibling_up_none [OF that]]
    by (simp add: onArrowUpKeydown_def sibling_up_none [OF that])
  have D: "optionSelector e \<and> aria_disabled e = None \<and> js ''disabled'' \<notin> set (classes e)"
    if "e \<in> set (children (onArrowDownKeydown st))" "activeSelector e" for e
    using selected_enabled [OF well_formed_arrow(1) [OF assms(1)] that]
    by (simp add: optionSelector_def)
  have E: "optionSelector e \<and> aria_disabled e = None \<and> js ''disabled'' \<notin> set (classes e)"
    if "e \<in> set (children (onArrowUpKeydown st))" "activeSelector e" for e
    using selected_enabled [OF well_formed_arrow(2) [OF assms(1)] that]
    by (simp add: optionSelector_def)
  show ?thesis using A B C D E by blast
qed

theorem arrow_keys_select_enabled_options_witness:
  "well_formed jo_list \<and> selected_count jo_list \<le> 1
   \<and> selectedOption jo_list = None \<and> map data_value (options jo_list) = [Some (js ''John''), Some (js ''Johnny''), Some (js ''John Doe'')]
   \<and> selected_ids (onArrowDownKeydown jo_list) = [eid (hd (options jo_list))]
   \<and> selected_ids (onArrowUpKeydown jo_list) = [eid (last (options jo_list))]
   \<and> well_formed jo_list_up \<and> selected_count jo_list_up \<le> 1
   \<and> map_option eid (selectedOption jo_list_up) = Some (eid (last (options jo_list_up)))
   \<and> selected_ids (onArrowDownKeydown jo_list_up) = [eid (hd (options jo_list_up))]"
proof -
  have w1: "well_formed jo_list" by code_simp
  have c1: "selected_count jo_list \<le> 1" by code_simp
  have n1: "selectedOption jo_list = None" by code_simp
  have v1: "map data_value (options jo_list) = [Some (js ''John''), Some (js ''Johnny''), Some (js ''John Doe'')]" by code_simp
  then have o1: "options jo_list \<noteq> []" by auto
  have w2: "well_formed jo_list_up" by code_simp
  have c2: "selected_count jo_list_up \<le> 1" by code_simp
  have o2: "options jo_list_up \<noteq> []" by code_simp
  have s2: "map_option eid (selectedOption jo_list_up) = Some (eid (last (options jo_list_up)))"
    by code_simp
  note t1 = arrow_keys_select_enabled_options [OF w1 c1]
  note t2 = arrow_keys_select_enabled_options [OF w2 c2]
  note d1 = t1 [THEN conjunct1, THEN mp, OF conjI [OF n1 o1]]
  note u1 = t1 [THEN conjunct2, THEN conjunct2, THEN conjunct1, THEN mp, OF conjI [OF n1 o1]]
  note d2 = t2 [THEN conjunct2, THEN conjunct1, THEN mp, OF conjI [OF o2 s2]]
  show ?thesis
    by (intro conjI w1 c1 n1 v1 d1 u1 w2 c2 s2 d2)
qed


section \<open>At most one selected element\<close>

lemma selected_count_render_pass:
  assumes wf: "well_formed st"
  shows "selected_count (render_pass its q st) \<le> selected_count st"
proof -
  note d = well_formedD(1) [OF wf] and b = well_formedD(2) [OF wf]
  let ?st2 = "render_pass its q st"
  let ?sh = "filter (matches q) its"
  let ?old = "\<lambda>e. eid e < next_eid st"
  let ?keep = "\<lambda>e. \<not> (optionSelector e \<and> stale ?sh e)"
  have allold: "?old x" if x: "x \<in> set (children ?st2)" "activeSelector x" for x
  proof (rule ccontr)
    assume "\<not> ?old x"
    then have "next_eid st \<le> eid x" by simp
    then obtain v where "x = new_option (eid x) v (item_nodes q v)"
      using render_pass_facts(7) [OF d b x(1)] by blast
    then have "\<not> activeSelector x" by (metis new_option_simps(6))
    then show False using x(2) by simp
  qed
  have "filter activeSelector (filter ?old (children ?st2)) = filter activeSelector (children ?st2)"
    unfolding filter_filter by (rule filter_cong) (use allold in auto)
  then have "map erase (filter activeSelector (children ?st2))
               = filter activeSelector (map erase (filter ?old (children ?st2)))"
    by (simp add: filter_map_erase)
  also have "\<dots> = filter activeSelector (map erase (filter ?keep (children st)))"
    by (simp only: render_pass_facts(6) [OF d b])
  also have "\<dots> = map erase (filter activeSelector (filter ?keep (children st)))"
    by (simp add: filter_map_erase)
  finally have "length (filter activeSelector (children ?st2))
                  = length (filter activeSelector (filter ?keep (children st)))"
    by (rule map_eq_imp_length_eq)
  also have "\<dots> = length (filter ?keep (filter activeSelector (children st)))"
    by (simp add: conj_commute)
  also have "\<dots> \<le> length (filter activeSelector (children st))" by (rule length_filter_le)
  finally show ?thesis by (simp add: selected_count_def)
qed

lemma selected_count_showSorryMessage [simp]:
  "selected_count (showSorryMessage q st) = selected_count st"
  by (simp add: selected_count_def)

lemma selected_count_hideSorryMessage:
  "selected_count (hideSorryMessage st) \<le> selected_count st"
proof (cases "find sorry_selector (children st)")
  case None
  then show ?thesis by (simp add: hideSorryMessage_def)
next
  case (Some x)
  have "length (filter activeSelector (filter (\<lambda>e. eid e \<noteq> eid x) (children st)))
          = length (filter (\<lambda>e. eid e \<noteq> eid x) (filter activeSelector (children st)))"
    by (simp add: conj_commute)
  also have "\<dots> \<le> length (filter activeSelector (children st))" by (rule length_filter_le)
  finally show ?thesis using Some by (simp add: hideSorryMessage_def removeChild_def selected_count_def)
qed

lemma selected_count_updateResults:
  assumes wf: "well_formed st"
  shows "selected_count (updateResults its q st) \<le> selected_count st"
  using selected_count_render_pass [OF wf, of its q]
    selected_count_hideSorryMessage [of "render_pass its q st"]
  by (simp add: updateResults_alt)

lemma selected_count_identifyOptions [simp]:
  "selected_count (identifyOptions st) = selected_count st"
proof -
  have "map without_id (filter activeSelector (children (identifyOptions st)))
          = map without_id (filter activeSelector (children st))"
    by (rule map_without_id_filter) (simp_all add: identifyOptions_without_id)
  then show ?thesis unfolding selected_count_def by (rule map_eq_imp_length_eq)
qed

lemma selected_count_replaceResults:
  assumes wf: "well_formed st"
  shows "selected_count (replaceResults r q st) \<le> selected_count st"
proof -
  have "selected_count (replaceResults r q st)
          = selected_count (updateResults (getUniqueItemList r) q st)"
    unfolding replaceResults_alt by (simp add: selected_count_def [of "setHeight _"] selected_count_def [of "open _"]
        selected_count_def [of "identifyOptions _", symmetric])
  then show ?thesis using selected_count_updateResults [OF wf] by simp
qed

lemma escape_children:
  "children (onEscapeKeydown st) = (if resultsShown st then [] else children st)"
  by (simp add: onEscapeKeydown_def hideAndRemoveOptions_def)

lemma selected_count_escape: "selected_count (onEscapeKeydown st) \<le> selected_count st"
  by (simp add: selected_count_def escape_children)

lemma well_formed_escape: "well_formed st \<Longrightarrow> well_formed (onEscapeKeydown st)"
  by (simp add: well_formed_def options_def escape_children onEscapeKeydown_def
      hideAndRemoveOptions_def selectedClassesOrDefault_def)

lemma perform_keeps:
  assumes "well_formed st" "selected_count st \<le> 1"
  shows "well_formed (perform st op) \<and> selected_count (perform st op) \<le> 1"
proof (cases op)
  case ArrowDown
  then show ?thesis using well_formed_arrow(1) selected_count_arrow(1) assms by simp
next
  case ArrowUp
  then show ?thesis using well_formed_arrow(2) selected_count_arrow(2) assms by simp
next
  case Escape
  then show ?thesis
    using well_formed_escape [OF assms(1)] selected_count_escape [of st] assms(2) by simp
next
  case (Render r q)
  then show ?thesis
    using well_formed_replaceResults [OF assms(1), of r q]
      selected_count_replaceResults [OF assms(1), of r q] assms(2) by simp
qed

lemma run_keeps:
  "well_formed st \<Longrightarrow> selected_count st \<le> 1 \<Longrightarrow>
     well_formed (run ops st) \<and> selected_count (run ops st) \<le> 1"
  unfolding run_def
proof (induction ops arbitrary: st)
  case Nil
  then show ?case by simp
next
  case (Cons op ops)
  from perform_keeps [OF Cons.prems, of op] Cons.IH [of "perform st op"]
  show ?case by simp
qed

lemma select_only_target:
  assumes d: "distinct (map eid (children st))" and c: "selected_count st \<le> 1"
    and e: "e \<in> set (children (select t st))" "activeSelector e"
  shows "eid e = eid t"
proof -
  let ?c = "clear_previous st"
  have none: "filter activeSelector (children ?c) = []" using c by (rule clear_previous_none_active)
  then have na: "\<not> activeSelector x" if "x \<in> set (children ?c)" for x
    using that by (simp add: filter_empty_conv)
  show ?thesis
  proof (rule ccontr)
    assume ne: "eid e \<noteq> eid t"
    have "e \<in> set (children ?c)"
      using e(1) ne unfolding select_alt Let_def by (auto split: if_splits)
    then show False using na e(2) by blast
  qed
qed

text \<open>
  C9. From a well-formed state with at most one element marked selected, every sequence of
  arrow keys, Escape keys and renders of a response leaves at most one element marked
  selected (and the state well formed); in such a state \<open>select\<close> leaves no element
  other than its target marked, whatever the target, and at most one element marked.
\<close>

theorem at_most_one_selected:
  assumes "well_formed st" and "selected_count st \<le> 1"
  shows "selected_count (run ops st) \<le> 1
         \<and> well_formed (run ops st)
         \<and> selected_count (select t (run ops st)) \<le> 1
         \<and> (\<forall>e \<in> set (children (select t (run ops st))). activeSelector e \<longrightarrow> eid e = eid t)"
proof -
  note k = run_keeps [OF assms, of ops]
  note d = well_formedD(1) [OF k [THEN conjunct1]]
  show ?thesis
    using k selected_count_select [OF d k [THEN conjunct2], of t]
      select_only_target [OF d k [THEN conjunct2], of _ t]
    by blast
qed

theorem at_most_one_selected_witness:
  "well_formed connected \<and> selected_count connected \<le> 1
   \<and> selected_count (run keys_and_renders connected) = 1
   \<and> selected_count (run keys_and_renders connected) \<le> 1
   \<and> well_formed (run keys_and_renders connected)
   \<and> selected_count (select (hd (options jo_list)) (run keys_and_renders connected)) \<le> 1"
proof -
  have w: "well_formed connected" by code_simp
  have c: "selected_count connected \<le> 1" by code_simp
  have o: "selected_count (run keys_and_renders connected) = 1" by code_simp
  note t = at_most_one_selected [OF w c, of keys_and_renders "hd (options jo_list)"]
  show ?thesis
    by (intro conjI w c o t [THEN conjunct1] t [THEN conjunct2, THEN conjunct1]
        t [THEN conjunct2, THEN conjunct2, THEN conjunct1])
qed


section \<open>The fetch cycle\<close>

lemma find_call_request: "find_call r p = Some c \<Longrightarrow> call_request c = r"
  by (auto simp: find_call_def find_Some_iff)

lemma find_call_member: "find_call r p = Some c \<Longrightarrow> c \<in> set (calls p)"
  by (auto simp: find_call_def find_Some_iff)

lemma fetchResults_catch_fields [simp]:
  "events (controller (fetchResults_catch c e p)) = events (controller p) @ [ErrorEvent, Loadend]"
  "children (controller (fetchResults_catch c e p)) = children (controller p)"
  "thrown (fetchResults_catch c e p) = thrown p @ [(call_request c, e)]"
  "applied (fetchResults_catch c e p) = applied p"
  "calls (fetchResults_catch c e p) = filter (\<lambda>d. call_request d \<noteq> call_request c) (calls p)"
  by (simp_all add: fetchResults_catch_def dispatchEvent_def)



lemma fetchResults_resume_fields [simp]:
  "controller (fetchResults_resume c r p)
     = dispatchEvent Loadend (dispatchEvent Load (replaceResults r (call_query c) (controller p)))"
  "thrown (fetchResults_resume c r p) = thrown p"
  "applied (fetchResults_resume c r p) = applied p @ [(call_request c, call_query c)]"
  "calls (fetchResults_resume c r p) = filter (\<lambda>d. call_request d \<noteq> call_request c) (calls p)"
  by (simp_all add: fetchResults_resume_def)

lemma fetchResults_start_fields:
  assumes "urlValue (controller p) \<noteq> None"
  shows "events (controller (fetchResults_start q p)) = events (controller p) @ [Loadstart]"
    and "children (controller (fetchResults_start q p)) = children (controller p)"
    and "calls (fetchResults_start q p)
           = calls p @ [\<lparr>call_request = next_request (controller p), call_query = q,
                          call_at = AwaitFetch\<rparr>]"
    and "thrown (fetchResults_start q p) = thrown p"
    and "applied (fetchResults_start q p) = applied p"
  using assms
  by (simp_all add: fetchResults_start_def Let_def doFetch_start_def issue_request_def
      abortLastRequest_def dispatchEvent_def split: option.splits)




section \<open>Requests that overlap\<close>

lemma fetchResults_start_fetcher:
  assumes "urlValue (controller p) \<noteq> None"
  shows "aborted (controller (fetchResults_start q p))
           = aborted (controller p) @ (case abortController (controller p) of None \<Rightarrow> [] | Some a \<Rightarrow> [a])"
    and "abortController (controller (fetchResults_start q p)) = Some (next_request (controller p))"
    and "next_request (controller (fetchResults_start q p)) = Suc (next_request (controller p))"
    and "requested (controller (fetchResults_start q p))
           = requested (controller p) @ [(next_request (controller p), q)]"
  using assms
  by (auto simp: fetchResults_start_def Let_def doFetch_start_def issue_request_def
      abortLastRequest_def dispatchEvent_def split: option.splits)

lemma fetchResults_start_none:
  "urlValue (controller p) = None \<Longrightarrow> fetchResults_start q p = p"
  by (simp add: fetchResults_start_def)

lemma fetchResults_catch_fetcher [simp]:
  "aborted (controller (fetchResults_catch c e p)) = aborted (controller p)"
  "abortController (controller (fetchResults_catch c e p)) = abortController (controller p)"
  "next_request (controller (fetchResults_catch c e p)) = next_request (controller p)"
  by (simp_all add: fetchResults_catch_def dispatchEvent_def)

lemma doFetch_response_fields [simp]:
  "aborted (controller (doFetch_response c status p)) = aborted (controller p)"
  "abortController (controller (doFetch_response c status p)) = None"
  "next_request (controller (doFetch_response c status p)) = next_request (controller p)"
  "applied (doFetch_response c status p) = applied p"
  "call_request ` set (calls (doFetch_response c status p)) \<subseteq> call_request ` set (calls p)"
  by (auto simp: doFetch_response_def Let_def fetchResults_catch_def dispatchEvent_def
      intro: rev_image_eqI)

lemma replaceResults_fetcher [simp]:
  "aborted (replaceResults r q st) = aborted st"
  "abortController (replaceResults r q st) = abortController st"
  "next_request (replaceResults r q st) = next_request st"
proof -
  have u: "aborted (updateResults its q st) = aborted st
           \<and> abortController (updateResults its q st) = abortController st
           \<and> next_request (updateResults its q st) = next_request st" for its
  proof -
    note f = render_pass_frame [of its q st]
    have h: "aborted (hideSorryMessage s) = aborted s
             \<and> abortController (hideSorryMessage s) = abortController s
             \<and> next_request (hideSorryMessage s) = next_request s" for s
      by (simp add: hideSorryMessage_def removeChild_def split: option.splits)
    have w: "aborted (showSorryMessage q s) = aborted s
             \<and> abortController (showSorryMessage q s) = abortController s
             \<and> next_request (showSorryMessage q s) = next_request s" for s
      by (simp add: showSorryMessage_def Let_def setHeight_def split: list.splits)
    show ?thesis
      unfolding updateResults_alt
      using frame_fields(11) [OF f] frame_fields(12) [OF f] frame_fields(14) [OF f]
      by (simp add: h w)
  qed
  have i: "aborted (identifyOptions s) = aborted s
           \<and> abortController (identifyOptions s) = abortController s
           \<and> next_request (identifyOptions s) = next_request s" for s
    by (simp add: identifyOptions_def Let_def case_prod_unfold del: identify.simps)
  have o: "aborted (open s) = aborted s \<and> abortController (open s) = abortController s
           \<and> next_request (open s) = next_request s" for s
    by (simp add: open_def dispatchEvent_def)
  have g: "aborted (setHeight s) = aborted s \<and> abortController (setHeight s) = abortController s
           \<and> next_request (setHeight s) = next_request s" for s
    by (simp add: setHeight_def split: list.splits)
  show "aborted (replaceResults r q st) = aborted st"
    "abortController (replaceResults r q st) = abortController st"
    "next_request (replaceResults r q st) = next_request st"
    by (simp_all add: replaceResults_alt u i o g)
qed

lemma fetchResults_resume_fetcher [simp]:
  "aborted (controller (fetchResults_resume c r p)) = aborted (controller p)"
  "abortController (controller (fetchResults_resume c r p)) = abortController (controller p)"
  "next_request (controller (fetchResults_resume c r p)) = next_request (controller p)"
  by (simp_all add: dispatchEvent_def)

lemma calls_consistent_loaded: "calls_consistent loaded"
  by (simp add: calls_consistent_def loaded_def connected_def)

lemma calls_consistent_typed:
  assumes I: "calls_consistent p"
  shows "calls_consistent (fetchResults_start q p)"
proof (cases "urlValue (controller p) = None")
  case True
  then show ?thesis using I by (simp add: fetchResults_start_none)
next
  case False
  note F = fetchResults_start_fetcher [OF False, of q] and G = fetchResults_start_fields [OF False, of q]
  let ?n = "next_request (controller p)"
  have c: "call_request c < ?n" if "c \<in> set (calls p)" for c
    using I that by (simp add: calls_consistent_def)
  have a: "fst x < ?n" "fst x \<notin> set (aborted (controller p))" if "x \<in> set (applied p)" for x
    using I that by (simp_all add: calls_consistent_def is_aborted_def)
  have k: "a \<notin> fst ` set (applied p)" if "abortController (controller p) = Some a" for a
    using I that by (simp add: calls_consistent_def)
  have 1: "\<forall>c \<in> set (calls (fetchResults_start q p)).
             call_request c < next_request (controller (fetchResults_start q p))"
    unfolding G F using c by (auto simp: less_Suc_eq)
  have 2: "\<forall>x \<in> set (applied (fetchResults_start q p)).
             fst x < next_request (controller (fetchResults_start q p))
             \<and> \<not> is_aborted (fst x) (fetchResults_start q p)"
  proof
    fix x assume "x \<in> set (applied (fetchResults_start q p))"
    then have x: "x \<in> set (applied p)" by (simp only: G)
    have lt: "fst x < Suc ?n" using a(1) [OF x] by simp
    have na: "fst x \<notin> set (aborted (controller p)
                @ (case abortController (controller p) of None \<Rightarrow> [] | Some a \<Rightarrow> [a]))"
    proof (cases "abortController (controller p)")
      case None
      then show ?thesis using a(2) [OF x] by simp
    next
      case (Some a')
      have "fst x \<in> fst ` set (applied p)" using x by (rule imageI)
      then have "fst x \<noteq> a'" using k [OF Some] by blast
      then show ?thesis using a(2) [OF x] Some by simp
    qed
    show "fst x < next_request (controller (fetchResults_start q p))
          \<and> \<not> is_aborted (fst x) (fetchResults_start q p)"
      unfolding is_aborted_def F using lt na by simp
  qed
  have 3: "\<forall>a. abortController (controller (fetchResults_start q p)) = Some a \<longrightarrow>
             a < next_request (controller (fetchResults_start q p))
             \<and> a \<notin> fst ` set (applied (fetchResults_start q p))
             \<and> (\<forall>c \<in> set (calls (fetchResults_start q p)). call_request c = a \<longrightarrow> call_at c = AwaitFetch)"
  proof (intro allI impI)
    fix a' assume "abortController (controller (fetchResults_start q p)) = Some a'"
    then have a': "a' = ?n" by (simp add: F)
    have x1: "a' < next_request (controller (fetchResults_start q p))" by (simp add: F a')
    have x2: "a' \<notin> fst ` set (applied (fetchResults_start q p))"
    proof
      assume "a' \<in> fst ` set (applied (fetchResults_start q p))"
      then obtain x where x: "x \<in> set (applied p)" "fst x = ?n" unfolding a' by (auto simp: G)
      show False using a(1) [OF x(1)] x(2) by simp
    qed
    have x3: "\<forall>d \<in> set (calls (fetchResults_start q p)). call_request d = a' \<longrightarrow> call_at d = AwaitFetch"
    proof (intro ballI impI)
      fix d assume d: "d \<in> set (calls (fetchResults_start q p))" "call_request d = a'"
      from d(1) have "d \<in> set (calls p)
                      \<or> d = \<lparr>call_request = ?n, call_query = q, call_at = AwaitFetch\<rparr>"
        by (auto simp: G)
      then show "call_at d = AwaitFetch"
      proof
        assume "d \<in> set (calls p)"
        then have "call_request d < ?n" by (rule c)
        then show ?thesis using d(2) a' by simp
      next
        assume "d = \<lparr>call_request = ?n, call_query = q, call_at = AwaitFetch\<rparr>"
        then show ?thesis by simp
      qed
    qed
    show "a' < next_request (controller (fetchResults_start q p))
          \<and> a' \<notin> fst ` set (applied (fetchResults_start q p))
          \<and> (\<forall>c \<in> set (calls (fetchResults_start q p)). call_request c = a' \<longrightarrow> call_at c = AwaitFetch)"
      using x1 x2 x3 by blast
  qed
  show ?thesis unfolding calls_consistent_def using 1 2 3 by blast
qed

lemma calls_consistent_headers:
  assumes I: "calls_consistent p"
  shows "calls_consistent (doFetch_response c status p)"
proof -
  have "call_request d < next_request (controller p)"
    if "d \<in> set (calls (doFetch_response c status p))" for d
  proof -
    have "call_request d \<in> call_request ` set (calls p)"
      using that doFetch_response_fields(5) [of c status p] by blast
    then show ?thesis using I by (auto simp: calls_consistent_def)
  qed
  then show ?thesis using I by (simp add: calls_consistent_def is_aborted_def)
qed

lemma calls_consistent_catch:
  "calls_consistent p \<Longrightarrow> calls_consistent (fetchResults_catch c e p)"
  by (simp add: calls_consistent_def is_aborted_def)

lemma calls_consistent_body:
  assumes I: "calls_consistent p" and f: "find_call r p = Some c"
    and w: "call_at c = AwaitJson" and n: "\<not> is_aborted r p"
  shows "calls_consistent (fetchResults_resume c j p)"
proof -
  note r = find_call_request [OF f] and m = find_call_member [OF f]
  have lt: "r < next_request (controller p)" using I m r by (auto simp: calls_consistent_def)
  have ne: "a \<noteq> r" if "abortController (controller p) = Some a" for a
    using I that m r w by (auto simp: calls_consistent_def)
  show ?thesis
    using I lt ne n by (auto simp: calls_consistent_def is_aborted_def r dispatchEvent_def)
qed

lemma calls_consistent_step:
  assumes "calls_consistent p" "step h p = Some p'"
  shows "calls_consistent p'"
proof (cases h)
  case (Typed q)
  then show ?thesis using assms by (auto simp: calls_consistent_typed)
next
  case (Headers r status)
  then show ?thesis
    using assms by (auto simp: calls_consistent_headers split: option.splits if_splits)
next
  case (Body r j)
  then show ?thesis
    using assms by (auto simp: calls_consistent_body split: option.splits if_splits)
next
  case (Rejected r e)
  then show ?thesis
    using assms by (auto simp: calls_consistent_catch split: option.splits)
qed

lemma calls_consistent_steps:
  "calls_consistent p \<Longrightarrow> steps hs p = Some p' \<Longrightarrow> calls_consistent p'"
proof (induction hs arbitrary: p)
  case Nil
  then show ?case by simp
next
  case (Cons h hs)
  from Cons.prems(2) obtain p1 where p1: "step h p = Some p1" "steps hs p1 = Some p'"
    by (auto split: option.splits)
  show ?case using Cons.IH [OF calls_consistent_step [OF Cons.prems(1) p1(1)] p1(2)] .
qed

text \<open>
  The half of the guarantee that holds in the direct build: a new call of \<open>fetchResults\<close>
  aborts the request whose controller is still kept, and the response of a request that
  has been aborted is never handed to \<open>replaceResults\<close>.
\<close>

lemma new_call_aborts_kept_request:
  "urlValue (controller p) \<noteq> None \<Longrightarrow> abortController (controller p) = Some a \<Longrightarrow>
     is_aborted a (fetchResults_start q p)"
  by (simp add: is_aborted_def fetchResults_start_fetcher)

lemma aborted_never_applied:
  "steps hs loaded = Some p \<Longrightarrow> is_aborted r p \<Longrightarrow> (r, q) \<notin> set (applied p)"
  using calls_consistent_steps [OF calls_consistent_loaded, of hs p]
  by (auto simp: calls_consistent_def)

text \<open>
  C8. The guarantee does not hold. In the direct build \<open>doFetch\<close> forgets the controller as
  soon as the response has arrived, before the body is read: when the user types \<open>j\<close> and
  then \<open>jo\<close> while the body of the first response is being read, nothing is aborted, the
  requests 0 and 1 are both outstanding, and both bodies are rendered, the one for \<open>j\<close>
  last, so the list ends with \<open>Jane\<close> in it under the input \<open>jo\<close>. In the cache-backed build
  a query answered from the cache aborts nothing: the answer to the earlier query \<open>k\<close>
  arrives after \<open>john\<close> has been rendered from the cache and replaces the list.
\<close>

theorem superseded_response_is_rendered:
  "map_option (\<lambda>p. (outstanding p, aborted (controller p))) (steps (take 3 overtaken) loaded)
     = Some ([0, 1], [])
   \<and> map_option (\<lambda>p. (applied p, map data_value (options (controller p))))
         (steps (take 5 overtaken) loaded)
       = Some ([(1, js ''jo'')], [Some (js ''Jo''), Some (js ''John''), Some (js ''Joan'')])
   \<and> map_option (\<lambda>p. (aborted (controller p), requested (controller p), applied p,
                        map data_value (options (controller p))))
         (steps overtaken loaded)
       = Some ([], [(0, js ''j''), (1, js ''jo'')], [(1, js ''jo''), (0, js ''j'')],
               [Some (js ''Jo''), Some (js ''John''), Some (js ''Joan''), Some (js ''Jane'')])
   \<and> map_option (\<lambda>p. (map fst (awaited p), aborted (the_cache p), cached_applied p,
                        map data_value (options (element_state p))))
         (cached_steps (take 4 answered_late) cached_loaded)
       = Some ([1], [], [(Some 0, js ''jo''), (None, js ''john'')], [Some (js ''John'')])
   \<and> map_option (\<lambda>p. (aborted (the_cache p), cached_applied p,
                        map data_value (options (element_state p))))
         (cached_steps answered_late cached_loaded)
       = Some ([], [(Some 0, js ''jo''), (None, js ''john''), (Some 1, js ''k'')],
               [Some (js ''Kim''), Some (js ''Karl'')])"
proof -
  have 1: "map_option (\<lambda>p. (outstanding p, aborted (controller p))) (steps (take 3 overtaken) loaded)
     = Some ([0, 1], [])" by code_simp
  have 2: "map_option (\<lambda>p. (applied p, map data_value (options (controller p))))
         (steps (take 5 overtaken) loaded)
       = Some ([(1, js ''jo'')], [Some (js ''Jo''), Some (js ''John''), Some (js ''Joan'')])"
    by code_simp
  have 3: "map_option (\<lambda>p. (aborted (controller p), requested (controller p), applied p,
                        map data_value (options (controller p))))
         (steps overtaken loaded)
       = Some ([], [(0, js ''j''), (1, js ''jo'')], [(1, js ''jo''), (0, js ''j'')],
               [Some (js ''Jo''), Some (js ''John''), Some (js ''Joan''), Some (js ''Jane'')])"
    by code_simp
  have 4: "map_option (\<lambda>p. (map fst (awaited p), aborted (the_cache p), cached_applied p,
                        map data_value (options (element_state p))))
         (cached_steps (take 4 answered_late) cached_loaded)
       = Some ([1], [], [(Some 0, js ''jo''), (None, js ''john'')], [Some (js ''John'')])"
    by code_simp
  have 5: "map_option (\<lambda>p. (aborted (the_cache p), cached_applied p,
                        map data_value (options (element_state p))))
         (cached_steps answered_late cached_loaded)
       = Some ([], [(Some 0, js ''jo''), (None, js ''john''), (Some 1, js ''k'')],
               [Some (js ''Kim''), Some (js ''Karl'')])"
    by code_simp
  show ?thesis by (intro conjI 1 2 3 4 5)
qed


end
